theory Spec2Isabelle
  imports Complex_Main "HOL-Library.AList" "HOL-Library.Multiset"
begin

section \<open>Strings\<close>

text \<open>
  JavaScript strings are modelled as HOL strings (lists of 8-bit characters); the
  character classes below are the ASCII ones.
\<close>

definition isSpaceChar :: "char \<Rightarrow> bool" where
  "isSpaceChar c = (let n = (of_char c :: nat) in (9 \<le> n \<and> n \<le> 13) \<or> n = 32)"

text \<open>
  \<open>s.split(d)\<close> for a one-character separator: every separator ends a piece, so the
  result is never empty and may hold empty pieces.
\<close>

fun splitBy :: "(char \<Rightarrow> bool) \<Rightarrow> string \<Rightarrow> string list" where
  "splitBy d [] = [[]]"
| "splitBy d (c # cs) =
     (if d c then [] # splitBy d cs
      else (case splitBy d cs of [] \<Rightarrow> [[c]] | w # ws \<Rightarrow> (c # w) # ws))"

text \<open>\<open>.filter(Boolean)\<close> on an array of strings drops the empty ones.\<close>

definition filterBoolean :: "string list \<Rightarrow> string list" where
  "filterBoolean ws = filter (\<lambda>w. w \<noteq> []) ws"

section \<open>Token-budget batcher\<close>

text \<open>
  \<open>estimateTokens\<close>: \<open>text.split(/\s+/).filter(Boolean).length\<close> counts the maximal
  runs of non-whitespace characters, which is what splitting at every single whitespace
  character and dropping the empty pieces leaves. \<open>Math.ceil(words * 1.3)\<close> is
  written as the integer ceiling of \<open>13 * words / 10\<close> and \<open>Math.ceil(chars / 4)\<close>
  as the ceiling of the integer quotient.
\<close>

definition estimateTokens :: "string \<Rightarrow> nat" where
  "estimateTokens text =
     (if text = [] then 0
      else let words = length (filterBoolean (splitBy isSpaceChar text));
               chars = length text;
               byWords = (13 * words + 9) div 10;
               byChars = (chars + 3) div 4
           in max byWords byChars)"

definition estimateTabTokens :: "string \<Rightarrow> string \<Rightarrow> nat" where
  "estimateTabTokens u t = estimateTokens u + estimateTokens t + 10"

text \<open>
  \<open>splitIntoBatches\<close> is generic in \<open>T extends { url: string; title: string }\<close>: an
  extensible record.
\<close>

record Item =
  url :: string
  title :: string

definition itemTokens :: "'a Item_scheme \<Rightarrow> int" where
  "itemTokens item = int (estimateTabTokens (url item) (title item)) + 10"

text \<open>
  The loop of \<open>splitIntoBatches\<close> over the remaining items, with its three variables
  \<open>batches\<close>, \<open>currentBatch\<close> and \<open>currentTokens\<close>; the last equation is the flush after
  the loop.
\<close>

fun splitLoop ::
  "int \<Rightarrow> 'a Item_scheme list \<Rightarrow> 'a Item_scheme list list \<Rightarrow> 'a Item_scheme list \<Rightarrow> int
     \<Rightarrow> 'a Item_scheme list list" where
  "splitLoop availableTokens [] batches currentBatch currentTokens =
     (if length currentBatch > 0 then batches @ [currentBatch] else batches)"
| "splitLoop availableTokens (item # items) batches currentBatch currentTokens =
     (if currentTokens + itemTokens item > availableTokens \<and> length currentBatch > 0
      then splitLoop availableTokens items (batches @ [currentBatch]) [item] (itemTokens item)
      else splitLoop availableTokens items batches (currentBatch @ [item])
             (currentTokens + itemTokens item))"

definition splitIntoBatches ::
  "'a Item_scheme list \<Rightarrow> int \<Rightarrow> int \<Rightarrow> 'a Item_scheme list list" where
  "splitIntoBatches items maxContextTokens reservedTokens =
     splitLoop (maxContextTokens - reservedTokens) items [] [] 0"

text \<open>The cumulative estimated cost of a batch.\<close>

definition batchTokens :: "'a Item_scheme list \<Rightarrow> int" where
  "batchTokens b = sum_list (map itemTokens b)"

text \<open>The loop invariant: what is known of a closed batch, and of the open one.\<close>

definition batchOk :: "int \<Rightarrow> 'a Item_scheme list \<Rightarrow> bool" where
  "batchOk a b = (b \<noteq> [] \<and> (2 \<le> length b \<longrightarrow> batchTokens b \<le> a))"

section \<open>The platform's URL objects\<close>

text \<open>
  The normalizer and the clustering engine read a URL through the platform's \<open>URL\<close>
  class, which is not part of the repository. It is modelled here for ASCII URL strings:
  the five fields the code reads, and a parser that follows the URL standard's steps for
  them (leading and trailing control characters and spaces are stripped, tabs and newlines
  removed, the scheme and the host of a web URL lowercased, backslashes of a special
  scheme read as slashes, credentials and port cut off the host, an absent path of a
  special scheme read as \<open>/\<close>). The model is narrower than the platform's parser: a host
  is a string of printable ASCII characters without the forbidden ones, taken as written,
  so that IPv6 literals in brackets, international domain names and percent-escapes in
  hosts do not parse here, numeric IPv4 forms are not rewritten, and a host whose last
  label is a number is accepted where the platform refuses it; path, query and fragment
  are kept as written, without removal of dot segments and without percent-encoding. What
  is proved of the normalizer for every valid URL is therefore proved for every parser
  (\<open>normalizeUrlWith\<close>), and this model serves where a parse result is computed.
\<close>

definition isAsciiAlpha :: "char \<Rightarrow> bool" where
  "isAsciiAlpha c = (let n = (of_char c :: nat) in (65 \<le> n \<and> n \<le> 90) \<or> (97 \<le> n \<and> n \<le> 122))"

definition isAsciiDigit :: "char \<Rightarrow> bool" where
  "isAsciiDigit c = (let n = (of_char c :: nat) in 48 \<le> n \<and> n \<le> 57)"

definition isAsciiAlnum :: "char \<Rightarrow> bool" where
  "isAsciiAlnum c = (isAsciiAlpha c \<or> isAsciiDigit c)"

definition toLowerChar :: "char \<Rightarrow> char" where
  "toLowerChar c = (let n = (of_char c :: nat) in if 65 \<le> n \<and> n \<le> 90 then char_of (n + 32) else c)"

text \<open>\<open>s.toLowerCase()\<close>, on ASCII.\<close>

definition toLowerCase :: "string \<Rightarrow> string" where
  "toLowerCase s = map toLowerChar s"

text \<open>The part of a string before the first \<open>d\<close>, and the part from the first \<open>d\<close> on.\<close>

definition upTo :: "char \<Rightarrow> string \<Rightarrow> string" where
  "upTo d s = takeWhile (\<lambda>c. c \<noteq> d) s"

definition startingAt :: "char \<Rightarrow> string \<Rightarrow> string" where
  "startingAt d s = dropWhile (\<lambda>c. c \<noteq> d) s"

record URL =
  protocol :: string
  hostname :: string
  pathname :: string
  search :: string
  hash :: string

definition isC0OrSpace :: "char \<Rightarrow> bool" where
  "isC0OrSpace c = ((of_char c :: nat) \<le> 32)"

definition isTabOrNewline :: "char \<Rightarrow> bool" where
  "isTabOrNewline c = (let n = (of_char c :: nat) in n = 9 \<or> n = 10 \<or> n = 13)"

definition preprocess :: "string \<Rightarrow> string" where
  "preprocess s =
     filter (\<lambda>c. \<not> isTabOrNewline c) (rev (dropWhile isC0OrSpace (rev (dropWhile isC0OrSpace s))))"

definition isSchemeChar :: "char \<Rightarrow> bool" where
  "isSchemeChar c = (isAsciiAlnum c \<or> c = CHR ''+'' \<or> c = CHR ''-'' \<or> c = CHR ''.'')"

definition validScheme :: "string \<Rightarrow> bool" where
  "validScheme s = (case s of [] \<Rightarrow> False | c # cs \<Rightarrow> isAsciiAlpha c \<and> list_all isSchemeChar cs)"

text \<open>
  The forbidden host code points of the URL standard, and the forbidden domain code points
  (which add \<open>%\<close>, the control characters and DEL; non-ASCII characters are outside the
  model).
\<close>

definition isForbiddenHostChar :: "char \<Rightarrow> bool" where
  "isForbiddenHostChar c =
     ((of_char c :: nat) \<in> {0, 9, 10, 13, 32} \<or> c \<in> set ''#/:<>?@[]^|'' \<or> c = CHR 0x5C)"

definition isDomainChar :: "char \<Rightarrow> bool" where
  "isDomainChar c =
     (let n = (of_char c :: nat) in 32 < n \<and> n < 127 \<and> \<not> isForbiddenHostChar c \<and> c \<noteq> CHR ''%'')"

definition portNumber :: "string \<Rightarrow> nat" where
  "portNumber ds = foldl (\<lambda>n d. 10 * n + (of_char d - 48)) 0 ds"

text \<open>A port is what follows the host: nothing, or a colon and digits up to 65535.\<close>

definition validPort :: "string \<Rightarrow> bool" where
  "validPort p = (p = [] \<or> (list_all isAsciiDigit (tl p) \<and> portNumber (tl p) \<le> 65535))"

definition afterCredentials :: "string \<Rightarrow> string" where
  "afterCredentials authority = rev (upTo (CHR ''@'') (rev authority))"

definition backslashToSlash :: "string \<Rightarrow> string" where
  "backslashToSlash s = map (\<lambda>c. if c = CHR 0x5C then CHR ''/'' else c) s"

definition specialSchemes :: "string list" where
  "specialSchemes = [''http'', ''https'', ''ws'', ''wss'', ''ftp'']"

text \<open>A special scheme other than \<open>file\<close>: any number of slashes, then a non-empty host.\<close>

definition parseSpecial :: "string \<Rightarrow> string \<Rightarrow> string \<Rightarrow> string \<Rightarrow> URL option" where
  "parseSpecial scheme body q h =
     (let afterSlashes = dropWhile (\<lambda>c. c = CHR ''/'') (backslashToSlash body);
          authority = upTo (CHR ''/'') afterSlashes;
          path = startingAt (CHR ''/'') afterSlashes;
          hostport = afterCredentials authority;
          host = upTo (CHR '':'') hostport;
          port = startingAt (CHR '':'') hostport
      in if host = [] \<or> \<not> list_all isDomainChar host \<or> \<not> validPort port then None
         else Some \<lparr>protocol = scheme @ '':'', hostname = toLowerCase host,
                    pathname = (if path = [] then ''/'' else path), search = q, hash = h\<rparr>)"

definition parseFile :: "string \<Rightarrow> string \<Rightarrow> string \<Rightarrow> URL option" where
  "parseFile body q h =
     (let b = backslashToSlash body
      in if take 2 b = ''//''
         then (let host = upTo (CHR ''/'') (drop 2 b); path = startingAt (CHR ''/'') (drop 2 b)
               in if \<not> list_all isDomainChar host then None
                  else Some \<lparr>protocol = ''file:'',
                             hostname = (if toLowerCase host = ''localhost'' then [] else toLowerCase host),
                             pathname = (if path = [] then ''/'' else path), search = q, hash = h\<rparr>)
         else Some \<lparr>protocol = ''file:'', hostname = [],
                    pathname = (if take 1 b = ''/'' then b else CHR ''/'' # b), search = q, hash = h\<rparr>)"

text \<open>Any other scheme: an opaque host after \<open>//\<close>, or no host and the rest as the path.\<close>

definition parseOther :: "string \<Rightarrow> string \<Rightarrow> string \<Rightarrow> string \<Rightarrow> URL option" where
  "parseOther scheme body q h =
     (if take 2 body = ''//''
      then (let authority = upTo (CHR ''/'') (drop 2 body);
                path = startingAt (CHR ''/'') (drop 2 body);
                hostport = afterCredentials authority;
                host = upTo (CHR '':'') hostport;
                port = startingAt (CHR '':'') hostport
            in if list_ex isForbiddenHostChar host \<or> \<not> validPort port then None
               else Some \<lparr>protocol = scheme @ '':'', hostname = host, pathname = path,
                          search = q, hash = h\<rparr>)
      else Some \<lparr>protocol = scheme @ '':'', hostname = [], pathname = body, search = q, hash = h\<rparr>)"

text \<open>
  \<open>new URL(input)\<close>, without a base: \<open>None\<close> where the constructor throws. A query or
  fragment that is empty reads as the empty string, like one that is absent.
\<close>

definition parseUrl :: "string \<Rightarrow> URL option" where
  "parseUrl input =
     (let s = preprocess input;
          sch = upTo (CHR '':'') s;
          rest = startingAt (CHR '':'') s
      in if rest = [] \<or> \<not> validScheme sch then None
         else let scheme = toLowerCase sch;
                  afterColon = tl rest;
                  beforeFragment = upTo (CHR ''#'') afterColon;
                  fragment = startingAt (CHR ''#'') afterColon;
                  body = upTo (CHR ''?'') beforeFragment;
                  query = startingAt (CHR ''?'') beforeFragment;
                  q = (if length query > 1 then query else []);
                  h = (if length fragment > 1 then fragment else [])
              in if scheme \<in> set specialSchemes then parseSpecial scheme body q h
                 else if scheme = ''file'' then parseFile body q h
                 else parseOther scheme body q h)"

subsection \<open>URLSearchParams\<close>

definition isHexDigit :: "char \<Rightarrow> bool" where
  "isHexDigit c =
     (let n = (of_char c :: nat) in isAsciiDigit c \<or> (65 \<le> n \<and> n \<le> 70) \<or> (97 \<le> n \<and> n \<le> 102))"

definition hexValue :: "char \<Rightarrow> nat" where
  "hexValue c =
     (let n = (of_char c :: nat) in if isAsciiDigit c then n - 48 else if n \<le> 70 then n - 55 else n - 87)"

fun percentDecode :: "string \<Rightarrow> string" where
  "percentDecode (a # b # c # rest) =
     (if a = CHR ''%'' \<and> isHexDigit b \<and> isHexDigit c
      then char_of (16 * hexValue b + hexValue c) # percentDecode rest
      else a # percentDecode (b # c # rest))"
| "percentDecode s = s"

definition formDecode :: "string \<Rightarrow> string" where
  "formDecode s = percentDecode (map (\<lambda>c. if c = CHR ''+'' then CHR '' '' else c) s)"

definition parsePair :: "string \<Rightarrow> string \<times> string" where
  "parsePair piece =
     (let name = upTo (CHR ''='') piece; v = startingAt (CHR ''='') piece
      in (formDecode name, formDecode (if v = [] then [] else tl v)))"

text \<open>
  \<open>[...parsed.searchParams.entries()]\<close>: the pairs of the query in order, duplicates
  included.
\<close>

definition searchParamsEntries :: "URL \<Rightarrow> (string \<times> string) list" where
  "searchParamsEntries u =
     (let q = (if take 1 (search u) = ''?'' then tl (search u) else search u)
      in map parsePair (filterBoolean (splitBy (\<lambda>c. c = CHR ''&'') q)))"

text \<open>
  \<open>params.set(key, value)\<close>: where the name is present, the first pair of that name takes
  the value and the other pairs of that name are removed; otherwise the pair is appended.
\<close>

fun setFirst :: "string \<Rightarrow> string \<Rightarrow> (string \<times> string) list \<Rightarrow> (string \<times> string) list" where
  "setFirst k v [] = []"
| "setFirst k v (p # ps) =
     (if fst p = k then (k, v) # filter (\<lambda>p'. fst p' \<noteq> k) ps else p # setFirst k v ps)"

definition paramsSet :: "string \<Rightarrow> string \<Rightarrow> (string \<times> string) list \<Rightarrow> (string \<times> string) list" where
  "paramsSet k v ps = (if k \<in> set (map fst ps) then setFirst k v ps else ps @ [(k, v)])"

definition hexDigit :: "nat \<Rightarrow> char" where
  "hexDigit n = ''0123456789ABCDEF'' ! (n mod 16)"

definition formEncodeChar :: "char \<Rightarrow> string" where
  "formEncodeChar c =
     (if c = CHR '' '' then ''+''
      else if isAsciiAlnum c \<or> c \<in> set ''*-._'' then [c]
      else [CHR ''%'', hexDigit (of_char c div 16), hexDigit (of_char c mod 16)])"

definition formEncode :: "string \<Rightarrow> string" where
  "formEncode s = concat (map formEncodeChar s)"

fun joinWith :: "string \<Rightarrow> string list \<Rightarrow> string" where
  "joinWith sep [] = []"
| "joinWith sep [w] = w"
| "joinWith sep (w # ws) = w @ sep @ joinWith sep ws"

text \<open>\<open>params.toString()\<close>.\<close>

definition paramsToString :: "(string \<times> string) list \<Rightarrow> string" where
  "paramsToString ps = joinWith ''&'' (map (\<lambda>(k, v). formEncode k @ ''='' @ formEncode v) ps)"

text \<open>
  \<open>parsed.search = s\<close> for an \<open>s\<close> that \<open>toString\<close> made: the empty string clears the
  query, any other string becomes the query unchanged (it holds no character the setter
  would encode), and \<open>parsed.search\<close> then reads \<open>?\<close> followed by it.
\<close>

definition setSearch :: "string \<Rightarrow> URL \<Rightarrow> URL" where
  "setSearch s u = u\<lparr>search := (if s = [] then [] else CHR ''?'' # s)\<rparr>"

subsection \<open>Array.prototype.sort\<close>

text \<open>
  \<open>xs.sort(cmp)\<close> is stable. For a comparator that is a total preorder (as a numeric
  difference and \<open>localeCompare\<close> are) the result is determined, and this insertion sort
  computes it: an element goes before the first later element it does not exceed.
\<close>

fun insertBy :: "('a \<Rightarrow> 'a \<Rightarrow> int) \<Rightarrow> 'a \<Rightarrow> 'a list \<Rightarrow> 'a list" where
  "insertBy cmp x [] = [x]"
| "insertBy cmp x (y # ys) = (if cmp x y \<le> 0 then x # y # ys else y # insertBy cmp x ys)"

definition jsSort :: "('a \<Rightarrow> 'a \<Rightarrow> int) \<Rightarrow> 'a list \<Rightarrow> 'a list" where
  "jsSort cmp xs = foldr (insertBy cmp) xs []"

text \<open>
  \<open>a.localeCompare(b)\<close> depends on the collation of the host's locale, so the functions that
  sort with it take the collation as a parameter. Comparison by character code is one
  collation; it orders strings of digits and lowercase letters as the usual locales do.
\<close>

type_synonym collation = "string \<Rightarrow> string \<Rightarrow> int"

fun codeUnitCompare :: collation where
  "codeUnitCompare [] [] = 0"
| "codeUnitCompare [] (b # bs) = - 1"
| "codeUnitCompare (a # as) [] = 1"
| "codeUnitCompare (a # as) (b # bs) =
     (if (of_char a :: nat) < of_char b then - 1
      else if (of_char b :: nat) < of_char a then 1
      else codeUnitCompare as bs)"

section \<open>URL normalizer\<close>

definition TRACKING_PARAMS :: "string list" where
  "TRACKING_PARAMS =
     [''utm_source'', ''utm_medium'', ''utm_campaign'', ''utm_term'', ''utm_content'',
      ''utm_id'', ''utm_source_platform'', ''utm_creative_format'', ''utm_marketing_tactic'',
      ''fbclid'', ''fb_action_ids'', ''fb_action_types'', ''fb_source'', ''fb_ref'',
      ''twclid'',
      ''msclkid'',
      ''gclid'', ''gclsrc'', ''dclid'',
      ''mc_cid'', ''mc_eid'',
      ''hsa_acc'', ''hsa_cam'', ''hsa_grp'', ''hsa_ad'', ''hsa_src'', ''hsa_tgt'',
      ''hsa_kw'', ''hsa_mt'', ''hsa_net'', ''hsa_ver'',
      ''ref'', ''ref_src'', ''ref_url'', ''source'', ''referrer'',
      ''affiliate'', ''aff_id'', ''campaign_id'',
      ''sessionid'', ''session_id'', ''clickid'', ''click_id'',
      ''trk'', ''trkid'', ''share'', ''si'', ''s'', ''feature'']"

text \<open>Every option may be left out; \<open>{ ...DEFAULT_OPTIONS, ...options }\<close> fills it in.\<close>

record NormalizeOptions =
  stripTracking :: "bool option"
  stripWww :: "bool option"
  stripProtocol :: "bool option"
  stripTrailingSlash :: "bool option"
  stripHash :: "bool option"
  lowercase :: "bool option"
  sortParams :: "bool option"

definition DEFAULT_OPTIONS :: NormalizeOptions where
  "DEFAULT_OPTIONS =
     \<lparr>stripTracking = Some True, stripWww = Some True, stripProtocol = Some True,
      stripTrailingSlash = Some True, stripHash = Some True, lowercase = Some True,
      sortParams = Some True\<rparr>"

text \<open>The argument \<open>{}\<close>, which is the default of the \<open>options\<close> parameter.\<close>

definition noOptions :: NormalizeOptions where
  "noOptions =
     \<lparr>stripTracking = None, stripWww = None, stripProtocol = None, stripTrailingSlash = None,
      stripHash = None, lowercase = None, sortParams = None\<rparr>"

text \<open>One field of the merged options, read as a condition (a missing value is falsy).\<close>

definition opt :: "(NormalizeOptions \<Rightarrow> bool option) \<Rightarrow> NormalizeOptions \<Rightarrow> bool" where
  "opt field options =
     (case field options of Some b \<Rightarrow> b
      | None \<Rightarrow> (case field DEFAULT_OPTIONS of Some b \<Rightarrow> b | None \<Rightarrow> False))"

text \<open>\<open>hostname.replace(/^www\./, '')\<close>.\<close>

definition stripWwwPrefix :: "string \<Rightarrow> string" where
  "stripWwwPrefix h = (if take 4 h = ''www.'' then drop 4 h else h)"

text \<open>The loop that rebuilds the query: tracking parameters skipped, the rest \<open>set\<close>.\<close>

fun rebuildParams ::
  "bool \<Rightarrow> (string \<times> string) list \<Rightarrow> (string \<times> string) list \<Rightarrow> (string \<times> string) list" where
  "rebuildParams strip [] params = params"
| "rebuildParams strip ((key, val) # entries) params =
     (if strip \<and> toLowerCase key \<in> set TRACKING_PARAMS then rebuildParams strip entries params
      else rebuildParams strip entries (paramsSet key val params))"

definition processSearchParams :: "collation \<Rightarrow> NormalizeOptions \<Rightarrow> URL \<Rightarrow> URL" where
  "processSearchParams localeCompare options parsed =
     (if opt stripTracking options \<or> opt sortParams options
      then (let entries0 = searchParamsEntries parsed;
                entries = (if opt sortParams options
                           then jsSort (\<lambda>a b. localeCompare (fst a) (fst b)) entries0
                           else entries0);
                params = rebuildParams (opt stripTracking options) entries []
            in setSearch (paramsToString params) parsed)
      else parsed)"

text \<open>
  \<open>normalizeUrl\<close>, with the platform's URL constructor as the parameter \<open>parse\<close>
  (\<open>None\<close> where \<open>new URL(url)\<close> throws).
\<close>

definition normalizeUrlWith ::
  "(string \<Rightarrow> URL option) \<Rightarrow> collation \<Rightarrow> string \<Rightarrow> NormalizeOptions \<Rightarrow> string" where
  "normalizeUrlWith parse localeCompare u options =
     (case parse u of
        None \<Rightarrow> u
      | Some parsed0 \<Rightarrow>
          if protocol parsed0 \<notin> set [''http:'', ''https:''] then u
          else let hostname1 = (if opt stripWww options then stripWwwPrefix (hostname parsed0)
                                else hostname parsed0);
                   hostname2 = (if opt lowercase options then toLowerCase hostname1 else hostname1);
                   parsed = processSearchParams localeCompare options parsed0;
                   normalized1 = (if \<not> opt stripProtocol options then ''https://'' else []);
                   normalized2 = normalized1 @ hostname2 @ pathname parsed;
                   normalized3 = (if opt stripTrailingSlash options \<and> normalized2 \<noteq> []
                                     \<and> last normalized2 = CHR ''/'' \<and> length normalized2 > 1
                                  then butlast normalized2 else normalized2);
                   normalized4 = (if search parsed \<noteq> [] then normalized3 @ search parsed
                                  else normalized3)
               in if \<not> opt stripHash options \<and> hash parsed \<noteq> [] then normalized4 @ hash parsed
                  else normalized4)"

text \<open>\<open>normalizeUrl\<close> on the model of the URL constructor.\<close>

definition normalizeUrl :: "collation \<Rightarrow> string \<Rightarrow> NormalizeOptions \<Rightarrow> string" where
  "normalizeUrl localeCompare u options = normalizeUrlWith parseUrl localeCompare u options"

definition getDomain :: "string \<Rightarrow> string" where
  "getDomain u =
     (case parseUrl u of None \<Rightarrow> u | Some parsed \<Rightarrow> toLowerCase (stripWwwPrefix (hostname parsed)))"

definition isInternalUrl :: "string \<Rightarrow> bool" where
  "isInternalUrl u =
     (case parseUrl u of
        None \<Rightarrow> False
      | Some parsed \<Rightarrow>
          protocol parsed \<in> set [''chrome:'', ''chrome-extension:'', ''edge:'', ''about:'', ''file:''])"

definition isValidHttpUrl :: "string \<Rightarrow> bool" where
  "isValidHttpUrl u =
     (case parseUrl u of None \<Rightarrow> False | Some parsed \<Rightarrow> protocol parsed \<in> set [''http:'', ''https:''])"

text \<open>
  What is used of the characters of a web URL's hostname: none is a colon, and none is a
  control character or a space.
\<close>

definition hostSafe :: "char \<Rightarrow> bool" where
  "hostSafe c = (c \<noteq> CHR '':'' \<and> \<not> isC0OrSpace c)"

text \<open>
  Two facts of the URL standard about a URL constructor called without a base, which are
  all that the idempotence of the normalizer needs of it. A string that parses has a
  scheme: once its leading and trailing control characters and spaces are stripped and its
  tabs and newlines removed, it starts with a letter, goes on with letters, digits,
  \<open>+\<close>, \<open>-\<close> or \<open>.\<close>, and reaches a colon. And the hostname of an http or https URL
  holds a colon only when it is an IPv6 address, which is written in brackets, while its
  pathname starts with a slash.
\<close>

definition hasScheme :: "string \<Rightarrow> bool" where
  "hasScheme s =
     (startingAt (CHR '':'') (preprocess s) \<noteq> [] \<and> validScheme (upTo (CHR '':'') (preprocess s)))"

definition standardUrlParser :: "(string \<Rightarrow> URL option) \<Rightarrow> bool" where
  "standardUrlParser parse =
     (\<forall>s p. parse s = Some p \<longrightarrow>
        hasScheme s
        \<and> (protocol p \<in> set [''http:'', ''https:''] \<longrightarrow>
             (CHR '':'' \<notin> set (hostname p) \<or> take 1 (hostname p) = ''['')
             \<and> take 1 (pathname p) = ''/''))"

text \<open>
  Two pieces of \<open>normalizeUrl\<close> on a parsed web URL, named to state what the trailing-slash
  step works on: what stands before the path (the scheme, if kept, and the host) and what
  is appended after the step (the query and the fragment, if any).
\<close>

definition normalizedPrefix :: "NormalizeOptions \<Rightarrow> URL \<Rightarrow> string" where
  "normalizedPrefix options parsed =
     (if \<not> opt stripProtocol options then ''https://'' else [])
     @ (let hostname1 = (if opt stripWww options then stripWwwPrefix (hostname parsed)
                         else hostname parsed)
        in if opt lowercase options then toLowerCase hostname1 else hostname1)"

definition normalizedRest :: "collation \<Rightarrow> NormalizeOptions \<Rightarrow> URL \<Rightarrow> string" where
  "normalizedRest localeCompare options parsed0 =
     (let parsed = processSearchParams localeCompare options parsed0
      in (if search parsed \<noteq> [] then search parsed else [])
         @ (if \<not> opt stripHash options \<and> hash parsed \<noteq> [] then hash parsed else []))"

section \<open>Duplicate and near-duplicate clustering\<close>

text \<open>
  \<open>TabInfo\<close> has a \<open>url\<close> and a \<open>title\<close>, so it extends \<open>Item\<close>; the tab's \<open>id\<close> is the
  field \<open>tabId\<close>. Tab ids, indices and timestamps are integers.
\<close>

record TabInfo = Item +
  tabId :: int
  windowId :: int
  index :: int
  favIconUrl :: "string option"
  pinned :: bool
  groupId :: int
  active :: bool
  discarded :: bool

datatype BookmarkNode =
  BookmarkNode
    (bookmarkId: string)
    (parentId: "string option")
    (bookmarkIndex: "int option")
    (bookmarkTitle: string)
    (bookmarkUrl: "string option")
    (dateAdded: "int option")
    (children: "BookmarkNode list option")

record DuplicateGroup =
  normalizedUrl :: string
  tabs :: "TabInfo list"

record BookmarkDuplicateGroup =
  bookmarkNormalizedUrl :: string
  bookmarks :: "BookmarkNode list"

text \<open>
  A \<open>Map\<close> from strings to arrays keeps its keys in insertion order: an association list.
  \<open>groups.get(k)\<close> is \<open>map_of\<close>; \<open>existing.push(v)\<close> changes the array stored under \<open>k\<close>
  where it stands, and \<open>groups.set(k, [v])\<close> on a new key appends the entry: both are
  \<open>AList.update\<close>.
\<close>

definition pushOrSet :: "string \<Rightarrow> 'a \<Rightarrow> (string \<times> 'a list) list \<Rightarrow> (string \<times> 'a list) list" where
  "pushOrSet k v groups =
     (case map_of groups k of
        Some existing \<Rightarrow> AList.update k (existing @ [v]) groups
      | None \<Rightarrow> AList.update k [v] groups)"

definition tabGroupsByNormalizedUrl :: "collation \<Rightarrow> TabInfo list \<Rightarrow> (string \<times> TabInfo list) list" where
  "tabGroupsByNormalizedUrl localeCompare ts =
     fold (\<lambda>tab groups.
             if isInternalUrl (url tab) then groups
             else pushOrSet (normalizeUrl localeCompare (url tab) noOptions) tab groups)
          ts []"

definition findDuplicateTabs :: "collation \<Rightarrow> TabInfo list \<Rightarrow> DuplicateGroup list" where
  "findDuplicateTabs localeCompare ts =
     map (\<lambda>(k, members). \<lparr>normalizedUrl = k, tabs = jsSort (\<lambda>a b. tabId a - tabId b) members\<rparr>)
         (filter (\<lambda>(k, members). length members > 1) (tabGroupsByNormalizedUrl localeCompare ts))"

text \<open>\<open>!bookmark.url\<close> holds of a missing url and of the empty string.\<close>

definition bookmarkGroupsByNormalizedUrl ::
  "collation \<Rightarrow> BookmarkNode list \<Rightarrow> (string \<times> BookmarkNode list) list" where
  "bookmarkGroupsByNormalizedUrl localeCompare bs =
     fold (\<lambda>bookmark groups.
             case bookmarkUrl bookmark of
               None \<Rightarrow> groups
             | Some u \<Rightarrow>
                 if u = [] then groups
                 else pushOrSet (normalizeUrl localeCompare u noOptions) bookmark groups)
          bs []"

text \<open>\<open>a.dateAdded ?? 0\<close>.\<close>

definition dateAddedOr0 :: "BookmarkNode \<Rightarrow> int" where
  "dateAddedOr0 b = (case dateAdded b of None \<Rightarrow> 0 | Some d \<Rightarrow> d)"

definition findDuplicateBookmarks :: "collation \<Rightarrow> BookmarkNode list \<Rightarrow> BookmarkDuplicateGroup list" where
  "findDuplicateBookmarks localeCompare bs =
     map (\<lambda>(k, members).
            \<lparr>bookmarkNormalizedUrl = k,
             bookmarks = jsSort (\<lambda>a b. dateAddedOr0 a - dateAddedOr0 b) members\<rparr>)
         (filter (\<lambda>(k, members). length members > 1) (bookmarkGroupsByNormalizedUrl localeCompare bs))"

text \<open>The invariant of the grouping loops: every member of every entry has the entry's key.\<close>

definition keyed :: "('a \<Rightarrow> string) \<Rightarrow> (string \<times> 'a list) list \<Rightarrow> bool" where
  "keyed key groups = (\<forall>(k, ms) \<in> set groups. \<forall>m \<in> set ms. key m = k)"

text \<open>The key of a bookmark that has a url.\<close>

definition bookmarkKey :: "collation \<Rightarrow> BookmarkNode \<Rightarrow> string option" where
  "bookmarkKey lc b = map_option (\<lambda>u. normalizeUrl lc u noOptions) (bookmarkUrl b)"

definition keyedBookmarks :: "collation \<Rightarrow> (string \<times> BookmarkNode list) list \<Rightarrow> bool" where
  "keyedBookmarks lc groups = (\<forall>(k, ms) \<in> set groups. \<forall>m \<in> set ms. bookmarkKey lc m = Some k)"

subsection \<open>Path similarity\<close>

text \<open>\<open>xs[i]\<close>, which is \<open>undefined\<close> out of range.\<close>

definition elemAt :: "'a list \<Rightarrow> nat \<Rightarrow> 'a option" where
  "elemAt xs i = (if i < length xs then Some (xs ! i) else None)"

text \<open>The counting loop \<open>for (let i = 0; i < maxLen; i++)\<close> of \<open>areSimilarUrls\<close>.\<close>

function countMatches :: "string list \<Rightarrow> string list \<Rightarrow> nat \<Rightarrow> nat \<Rightarrow> nat \<Rightarrow> nat" where
  "countMatches path1 path2 maxLen i matches =
     (if i < maxLen
      then countMatches path1 path2 maxLen (Suc i)
             (if elemAt path1 i = elemAt path2 i then Suc matches else matches)
      else matches)"
  by pat_completeness auto
termination
  by (relation "measure (\<lambda>(path1, path2, maxLen, i, matches). maxLen - i)") auto

declare countMatches.simps [simp del]

definition pathSegments :: "string \<Rightarrow> string list" where
  "pathSegments p = filterBoolean (splitBy (\<lambda>c. c = CHR ''/'') p)"

text \<open>The threshold is a real number, and the quotient is the exact one.\<close>

definition areSimilarUrls :: "string \<Rightarrow> string \<Rightarrow> real \<Rightarrow> bool" where
  "areSimilarUrls url1 url2 threshold =
     (case parseUrl url1 of
        None \<Rightarrow> False
      | Some parsed1 \<Rightarrow>
          (case parseUrl url2 of
             None \<Rightarrow> False
           | Some parsed2 \<Rightarrow>
               if hostname parsed1 \<noteq> hostname parsed2 then False
               else let path1 = pathSegments (pathname parsed1);
                        path2 = pathSegments (pathname parsed2)
                    in if \<bar>int (length path1) - int (length path2)\<bar> > 1 then False
                       else let maxLen = max (length path1) (length path2)
                            in if maxLen = 0 then True
                               else real (countMatches path1 path2 maxLen 0 0) / real maxLen
                                      \<ge> threshold))"

text \<open>
  The number of positions at which two segment lists hold the same segment: the
  index-aligned matches, stated on the lists without the loop.
\<close>

definition alignedMatches :: "string list \<Rightarrow> string list \<Rightarrow> nat" where
  "alignedMatches xs ys = length (filter (\<lambda>(a, b). a = b) (zip xs ys))"

text \<open>
  One tab against the clusters in order: it joins the first cluster whose first member it
  is similar to, or founds a new cluster at the end.
\<close>

fun addToClusters :: "real \<Rightarrow> TabInfo \<Rightarrow> TabInfo list list \<Rightarrow> TabInfo list list" where
  "addToClusters threshold tab [] = [[tab]]"
| "addToClusters threshold tab (cluster # clusters) =
     (case cluster of
        [] \<Rightarrow> cluster # addToClusters threshold tab clusters
      | representative # others \<Rightarrow>
          if areSimilarUrls (url tab) (url representative) threshold
          then (cluster @ [tab]) # clusters
          else cluster # addToClusters threshold tab clusters)"

definition clustersOf :: "real \<Rightarrow> TabInfo list \<Rightarrow> TabInfo list list" where
  "clustersOf threshold domainTabs = fold (addToClusters threshold) domainTabs []"

text \<open>The invariant of the clustering loop: every later member is similar to the first.\<close>

definition clusterOk :: "real \<Rightarrow> TabInfo list \<Rightarrow> bool" where
  "clusterOk threshold cluster =
     (case cluster of
        [] \<Rightarrow> True
      | representative # others \<Rightarrow>
          list_all (\<lambda>t. areSimilarUrls (url t) (url representative) threshold) others)"

definition tabGroupsByDomain :: "TabInfo list \<Rightarrow> (string \<times> TabInfo list) list" where
  "tabGroupsByDomain ts =
     fold (\<lambda>tab groups.
             if isInternalUrl (url tab) then groups else pushOrSet (getDomain (url tab)) tab groups)
          ts []"

text \<open>\<open>normalizeUrl(cluster[0]?.url ?? '')\<close>.\<close>

definition clusterGroup :: "collation \<Rightarrow> TabInfo list \<Rightarrow> DuplicateGroup" where
  "clusterGroup localeCompare cluster =
     \<lparr>normalizedUrl =
        normalizeUrl localeCompare (case cluster of [] \<Rightarrow> [] | first # others \<Rightarrow> url first) noOptions,
      tabs = cluster\<rparr>"

definition findNearDuplicateTabs :: "collation \<Rightarrow> TabInfo list \<Rightarrow> real \<Rightarrow> DuplicateGroup list" where
  "findNearDuplicateTabs localeCompare ts similarityThreshold =
     concat
       (map (\<lambda>(domain, domainTabs).
               if length domainTabs < 2 then []
               else map (clusterGroup localeCompare)
                      (filter (\<lambda>cluster. length cluster > 1)
                         (clustersOf similarityThreshold domainTabs)))
            (tabGroupsByDomain ts))"

subsection \<open>Removal candidates\<close>

text \<open>The inner loop \<open>for (let i = 1; i < group.tabs.length; i++)\<close>.\<close>

function removeLoop :: "TabInfo list \<Rightarrow> nat \<Rightarrow> int list \<Rightarrow> int list" where
  "removeLoop groupTabs i toRemove =
     (if i < length groupTabs
      then removeLoop groupTabs (Suc i)
             (if \<not> pinned (groupTabs ! i) then toRemove @ [tabId (groupTabs ! i)] else toRemove)
      else toRemove)"
  by pat_completeness auto
termination
  by (relation "measure (\<lambda>(groupTabs, i, toRemove). length groupTabs - i)") auto

declare removeLoop.simps [simp del]

definition getDuplicateTabsToRemove :: "DuplicateGroup list \<Rightarrow> int list" where
  "getDuplicateTabsToRemove groups = fold (\<lambda>group toRemove. removeLoop (tabs group) 1 toRemove) groups []"

subsection \<open>Sample records\<close>

text \<open>A tab and a bookmark with the given id, url and flag or date, for the examples.\<close>

definition sampleTab :: "int \<Rightarrow> string \<Rightarrow> bool \<Rightarrow> TabInfo" where
  "sampleTab i u p =
     \<lparr>url = u, title = ''t'', tabId = i, windowId = 1, index = 0, favIconUrl = None,
      pinned = p, groupId = - 1, active = False, discarded = False\<rparr>"

definition sampleBookmark :: "string \<Rightarrow> string option \<Rightarrow> int option \<Rightarrow> BookmarkNode" where
  "sampleBookmark i u d = BookmarkNode i None None ''t'' u d None"

section \<open>Retry with exponential backoff\<close>

text \<open>
  The operation \<open>fn\<close> has effects and may fail differently each time: it is a function on
  a state \<open>'s\<close> of the world that returns the new state with an error (\<open>Inl\<close>, the promise
  rejects) or a value (\<open>Inr\<close>). Both callbacks are taken not to throw; \<open>onRetry\<close> acts on
  the state. Delays are real numbers of milliseconds.
\<close>

record ('e, 's) RetryOptions =
  maxRetries :: "int option"
  initialDelay :: "real option"
  maxDelay :: "real option"
  backoffMultiplier :: "real option"
  shouldRetry :: "('e \<Rightarrow> bool) option"
  onRetry :: "('e \<Rightarrow> nat \<Rightarrow> 's \<Rightarrow> 's) option"

text \<open>\<open>{ ...DEFAULT_OPTIONS, ...options }\<close>: the four numbers after the merge.\<close>

definition optMaxRetries :: "('e, 's) RetryOptions \<Rightarrow> int" where
  "optMaxRetries options = (case maxRetries options of None \<Rightarrow> 3 | Some n \<Rightarrow> n)"

definition optInitialDelay :: "('e, 's) RetryOptions \<Rightarrow> real" where
  "optInitialDelay options = (case initialDelay options of None \<Rightarrow> 1000 | Some d \<Rightarrow> d)"

definition optMaxDelay :: "('e, 's) RetryOptions \<Rightarrow> real" where
  "optMaxDelay options = (case maxDelay options of None \<Rightarrow> 8000 | Some d \<Rightarrow> d)"

definition optBackoffMultiplier :: "('e, 's) RetryOptions \<Rightarrow> real" where
  "optBackoffMultiplier options = (case backoffMultiplier options of None \<Rightarrow> 2 | Some m \<Rightarrow> m)"

text \<open>
  What a call of \<open>retry\<close> leaves behind: how the promise settles (a rejection carries the
  thrown value, which is \<open>undefined\<close>, here \<open>None\<close>, when the loop body never ran), the state
  of the world, what each invocation of \<open>fn\<close> returned, in order, and the delays slept.
\<close>

datatype ('e, 'a) settled = Resolved 'a | Rejected "'e option"

record ('e, 'a, 's) retryRun =
  outcome :: "('e, 'a) settled"
  world :: 's
  invocations :: "('e + 'a) list"
  delays :: "real list"

function retryLoop ::
  "('s \<Rightarrow> ('e + 'a) \<times> 's) \<Rightarrow> ('e, 's) RetryOptions \<Rightarrow> nat \<Rightarrow> 'e option \<Rightarrow> 's
     \<Rightarrow> ('e + 'a) list \<Rightarrow> real list \<Rightarrow> ('e, 'a, 's) retryRun" where
  "retryLoop fn options attempt lastError s calls slept =
     (if int attempt \<le> optMaxRetries options
      then (case fn s of
              (Inr v, s') \<Rightarrow>
                \<lparr>outcome = Resolved v, world = s', invocations = calls @ [Inr v], delays = slept\<rparr>
            | (Inl error, s') \<Rightarrow>
                if (case shouldRetry options of None \<Rightarrow> False | Some p \<Rightarrow> \<not> p error)
                then \<lparr>outcome = Rejected (Some error), world = s',
                      invocations = calls @ [Inl error], delays = slept\<rparr>
                else if int attempt \<ge> optMaxRetries options
                then \<lparr>outcome = Rejected (Some error), world = s',
                      invocations = calls @ [Inl error], delays = slept\<rparr>
                else let delay = min (optInitialDelay options * optBackoffMultiplier options ^ attempt)
                                     (optMaxDelay options);
                         s'' = (case onRetry options of None \<Rightarrow> s'
                                | Some notify \<Rightarrow> notify error (attempt + 1) s')
                     in retryLoop fn options (Suc attempt) (Some error) s''
                          (calls @ [Inl error]) (slept @ [delay]))
      else \<lparr>outcome = Rejected lastError, world = s, invocations = calls, delays = slept\<rparr>)"
  by pat_completeness auto
termination
  by (relation "measure (\<lambda>(fn, options, attempt, lastError, s, calls, slept).
                  nat (optMaxRetries options + 1 - int attempt))") auto

declare retryLoop.simps [simp del]

definition retry ::
  "('s \<Rightarrow> ('e + 'a) \<times> 's) \<Rightarrow> ('e, 's) RetryOptions \<Rightarrow> 's \<Rightarrow> ('e, 'a, 's) retryRun" where
  "retry fn options s = retryLoop fn options 0 None s [] []"

text \<open>The argument \<open>{}\<close>.\<close>

definition noRetryOptions :: "('e, 's) RetryOptions" where
  "noRetryOptions =
     \<lparr>maxRetries = None, initialDelay = None, maxDelay = None, backoffMultiplier = None,
      shouldRetry = None, onRetry = None\<rparr>"

section \<open>Properties of the batcher\<close>

lemma itemTokens_pos: "0 < itemTokens item"
  by (simp add: itemTokens_def)

lemma batchTokens_simps [simp]:
  "batchTokens [] = 0"
  "batchTokens (x # xs) = itemTokens x + batchTokens xs"
  "batchTokens (xs @ ys) = batchTokens xs + batchTokens ys"
  by (simp_all add: batchTokens_def)

lemma batchTokens_nonneg: "0 \<le> batchTokens b"
  by (induction b) (simp_all add: less_imp_le [OF itemTokens_pos] add_nonneg_nonneg)

lemma member_le_batchTokens: "x \<in> set b \<Longrightarrow> itemTokens x \<le> batchTokens b"
proof (induction b)
  case Nil
  then show ?case by simp
next
  case (Cons y ys)
  have "0 \<le> itemTokens y" using itemTokens_pos [of y] by simp
  with Cons batchTokens_nonneg [of ys] show ?case by auto
qed

lemma splitLoop_concat:
  "concat (splitLoop a items batches cur tok) = concat batches @ cur @ items"
  by (induction a items batches cur tok rule: splitLoop.induct) simp_all

lemma splitLoop_nonempty:
  "cur \<noteq> [] \<or> items \<noteq> [] \<Longrightarrow> splitLoop a items batches cur tok \<noteq> []"
  by (induction a items batches cur tok rule: splitLoop.induct) simp_all

lemma splitLoop_invariant:
  assumes "\<forall>b \<in> set batches. batchOk a b"
    and "tok = batchTokens cur"
    and "2 \<le> length cur \<longrightarrow> batchTokens cur \<le> a"
    and "b \<in> set (splitLoop a items batches cur tok)"
  shows "batchOk a b"
  using assms
proof (induction a items batches cur tok rule: splitLoop.induct)
  case (1 a batches cur tok)
  then show ?case by (auto simp: batchOk_def split: if_splits)
next
  case (2 a item items batches cur tok)
  show ?case
  proof (cases "tok + itemTokens item > a \<and> length cur > 0")
    case True
    have closed: "\<forall>b \<in> set (batches @ [cur]). batchOk a b"
      using "2.prems"(1,3) True by (auto simp: batchOk_def)
    have "b \<in> set (splitLoop a items (batches @ [cur]) [item] (itemTokens item))"
      using "2.prems"(4) True by (auto split: if_splits)
    with "2.IH"(1) [OF True closed] show ?thesis by simp
  next
    case False
    have fits: "2 \<le> length (cur @ [item]) \<longrightarrow> batchTokens (cur @ [item]) \<le> a"
      using False "2.prems"(2) by auto
    have "b \<in> set (splitLoop a items batches (cur @ [item]) (tok + itemTokens item))"
      using "2.prems"(4) False by (auto split: if_splits)
    with "2.IH"(2) [OF False "2.prems"(1) _ fits] "2.prems"(2) show ?thesis by simp
  qed
qed

lemma splitIntoBatches_batchOk:
  "b \<in> set (splitIntoBatches items m r) \<Longrightarrow> batchOk (m - r) b"
  unfolding splitIntoBatches_def
  by (rule splitLoop_invariant [where batches = "[]" and cur = "[]" and tok = 0]) simp_all

text \<open>
  Claim C2. For every non-empty list of items and any \<open>maxContextTokens\<close> and
  \<open>reservedTokens\<close>, \<open>splitIntoBatches\<close> returns at least one batch; the batches
  concatenated in order are the input list; every batch of two or more items costs at most
  the budget \<open>maxContextTokens - reservedTokens\<close>; and an item whose own cost exceeds the
  budget sits alone in its batch (it is in some batch, since the concatenation is the
  input). No batch is empty.
\<close>

theorem splitIntoBatches_correct:
  "(items \<noteq> [] \<longrightarrow> splitIntoBatches items m r \<noteq> [])
   \<and> concat (splitIntoBatches items m r) = items
   \<and> (\<forall>b \<in> set (splitIntoBatches items m r).
         b \<noteq> []
         \<and> (2 \<le> length b \<longrightarrow> batchTokens b \<le> m - r)
         \<and> (\<forall>x \<in> set b. m - r < itemTokens x \<longrightarrow> b = [x]))"
proof (intro conjI impI ballI)
  assume "items \<noteq> []"
  then show "splitIntoBatches items m r \<noteq> []"
    unfolding splitIntoBatches_def by (simp add: splitLoop_nonempty)
next
  show "concat (splitIntoBatches items m r) = items"
    unfolding splitIntoBatches_def by (simp add: splitLoop_concat)
next
  fix b assume "b \<in> set (splitIntoBatches items m r)"
  then show "b \<noteq> []" using splitIntoBatches_batchOk by (auto simp: batchOk_def)
next
  fix b assume "b \<in> set (splitIntoBatches items m r)" and "2 \<le> length b"
  then show "batchTokens b \<le> m - r"
    using splitIntoBatches_batchOk by (auto simp: batchOk_def)
next
  fix b x
  assume b: "b \<in> set (splitIntoBatches items m r)" and x: "x \<in> set b"
    and big: "m - r < itemTokens x"
  have ok: "batchOk (m - r) b" using b by (rule splitIntoBatches_batchOk)
  have "\<not> 2 \<le> length b"
  proof
    assume "2 \<le> length b"
    with ok have "batchTokens b \<le> m - r" by (simp add: batchOk_def)
    with member_le_batchTokens [OF x] big show False by simp
  qed
  then have "length b \<le> 1" by simp
  with x show "b = [x]" by (cases b) auto
qed

theorem splitIntoBatches_correct_witness:
  "splitIntoBatches
       [\<lparr>url = ''a'', title = ''b''\<rparr>, \<lparr>url = ''a'', title = ''c''\<rparr>,
        \<lparr>url = ''a'', title = ''x x x x x x x x x x x x x x x x x x x x x x x''\<rparr>] 2550 2500
     = [[\<lparr>url = ''a'', title = ''b''\<rparr>, \<lparr>url = ''a'', title = ''c''\<rparr>],
        [\<lparr>url = ''a'', title = ''x x x x x x x x x x x x x x x x x x x x x x x''\<rparr>]]
   \<and> batchTokens [\<lparr>url = ''a'', title = ''b''\<rparr>, \<lparr>url = ''a'', title = ''c''\<rparr>] \<le> 2550 - 2500
   \<and> 2550 - 2500 < itemTokens \<lparr>url = ''a'', title = ''x x x x x x x x x x x x x x x x x x x x x x x''\<rparr>"
proof -
  let ?A = "\<lparr>url = ''a'', title = ''b''\<rparr>"
  let ?B = "\<lparr>url = ''a'', title = ''c''\<rparr>"
  let ?C = "\<lparr>url = ''a'', title = ''x x x x x x x x x x x x x x x x x x x x x x x''\<rparr>"
  have eq: "splitIntoBatches [?A, ?B, ?C] 2550 2500 = [[?A, ?B], [?C]]" by code_simp
  have big: "2550 - 2500 < itemTokens ?C" by code_simp
  have all: "\<forall>b \<in> set (splitIntoBatches [?A, ?B, ?C] 2550 2500).
      b \<noteq> [] \<and> (2 \<le> length b \<longrightarrow> batchTokens b \<le> 2550 - 2500)
         \<and> (\<forall>x \<in> set b. 2550 - 2500 < itemTokens x \<longrightarrow> b = [x])"
    using splitIntoBatches_correct [of "[?A, ?B, ?C]" 2550 2500] by (elim conjE)
  have mem: "[?A, ?B] \<in> set (splitIntoBatches [?A, ?B, ?C] 2550 2500)"
    unfolding eq by (rule list.set_intros)
  have len: "2 \<le> length [?A, ?B]" by simp
  from bspec [OF all mem] len have small: "batchTokens [?A, ?B] \<le> 2550 - 2500"
    by (elim conjE impE)
  show ?thesis using eq small big by (intro conjI)
qed

section \<open>Properties of the removal candidates\<close>

lemma removeLoop_eq:
  "removeLoop ts i acc = acc @ map tabId (filter (\<lambda>t. \<not> pinned t) (drop i ts))"
proof (induction ts i acc rule: removeLoop.induct)
  case (1 ts i acc)
  show ?case
  proof (cases "i < length ts")
    case True
    then have "drop i ts = ts ! i # drop (Suc i) ts"
      by (simp add: Cons_nth_drop_Suc)
    with True "1.IH" show ?thesis
      by (subst removeLoop.simps) simp
  next
    case False
    then show ?thesis
      by (subst removeLoop.simps) simp
  qed
qed

lemma fold_removeLoop:
  "fold (\<lambda>group. removeLoop (tabs group) (Suc 0)) groups acc
     = acc @ concat (map (\<lambda>g. map tabId (filter (\<lambda>t. \<not> pinned t) (tl (tabs g)))) groups)"
  by (induction groups arbitrary: acc) (simp_all add: removeLoop_eq drop_Suc)

lemma getDuplicateTabsToRemove_eq:
  "getDuplicateTabsToRemove groups
     = concat (map (\<lambda>g. map tabId (filter (\<lambda>t. \<not> pinned t) (tl (tabs g)))) groups)"
  by (simp add: getDuplicateTabsToRemove_def fold_removeLoop)

lemma removed_id_origin:
  assumes "n \<in> set (getDuplicateTabsToRemove groups)"
  obtains g t where "g \<in> set groups" "t \<in> set (tl (tabs g))" "\<not> pinned t" "tabId t = n"
  using assms by (auto simp: getDuplicateTabsToRemove_eq)

lemma member_of_all:
  "g \<in> set groups \<Longrightarrow> t \<in> set (tabs g) \<Longrightarrow> t \<in> set (concat (map tabs groups))"
  by auto

lemma first_not_removed:
  assumes d: "distinct (map tabId (concat (map tabs groups)))"
    and g: "g \<in> set groups" and ne: "tabs g \<noteq> []"
  shows "tabId (hd (tabs g)) \<notin> set (getDuplicateTabsToRemove groups)"
proof
  assume "tabId (hd (tabs g)) \<in> set (getDuplicateTabsToRemove groups)"
  then obtain g' t where g': "g' \<in> set groups" and t: "t \<in> set (tl (tabs g'))"
    and id: "tabId t = tabId (hd (tabs g))"
    by (rule removed_id_origin)
  from d have dc: "distinct (concat (map tabs groups))"
    and inj: "inj_on tabId (set (concat (map tabs groups)))"
    by (simp_all add: distinct_map)
  have t_in: "t \<in> set (tabs g')" using t by (cases "tabs g'") auto
  have h_in: "hd (tabs g) \<in> set (tabs g)" using ne by simp
  have "t = hd (tabs g)"
    using inj id member_of_all [OF g' t_in] member_of_all [OF g h_in]
    by (auto dest: inj_onD)
  with t have h_tl: "hd (tabs g) \<in> set (tl (tabs g'))" by simp
  show False
  proof (cases "tabs g = tabs g'")
    case True
    from dc g have "distinct (tabs g)" by (auto simp: distinct_concat_iff)
    moreover from ne have "tabs g = hd (tabs g) # tl (tabs g)" by simp
    ultimately have "hd (tabs g) \<notin> set (tl (tabs g))"
      by (metis distinct.simps(2))
    with h_tl True show False by simp
  next
    case False
    with dc g g' have "set (tabs g) \<inter> set (tabs g') = {}"
      by (auto simp: distinct_concat_iff)
    moreover from h_tl have "hd (tabs g) \<in> set (tabs g')" by (cases "tabs g'") auto
    ultimately show False using h_in by auto
  qed
qed

lemma pinned_not_removed:
  assumes same: "\<forall>t \<in> set (concat (map tabs groups)). \<forall>t' \<in> set (concat (map tabs groups)).
                   tabId t = tabId t' \<longrightarrow> pinned t = pinned t'"
    and g: "g \<in> set groups" and t: "t \<in> set (tabs g)" and p: "pinned t"
  shows "tabId t \<notin> set (getDuplicateTabsToRemove groups)"
proof
  assume "tabId t \<in> set (getDuplicateTabsToRemove groups)"
  then obtain g' t' where g': "g' \<in> set groups" and t': "t' \<in> set (tl (tabs g'))"
    and np: "\<not> pinned t'" and id: "tabId t' = tabId t"
    by (rule removed_id_origin)
  have "t' \<in> set (tabs g')" using t' by (cases "tabs g'") auto
  then have in': "t' \<in> set (concat (map tabs groups))" using g' by (intro member_of_all)
  have "t \<in> set (concat (map tabs groups))" using g t by (rule member_of_all)
  with same in' id have "pinned t' = pinned t" by blast
  with np p show False by simp
qed

lemma pushOrSet_Nil: "pushOrSet k v [] = [(k, [v])]"
  by (simp add: pushOrSet_def)

lemma pushOrSet_Cons:
  "pushOrSet k v ((k', vs) # rest)
     = (if k = k' then (k', vs @ [v]) # rest else (k', vs) # pushOrSet k v rest)"
  by (simp add: pushOrSet_def split: option.splits)

lemma mset_pushOrSet:
  "mset (concat (map snd (pushOrSet k v groups))) = add_mset v (mset (concat (map snd groups)))"
  by (induction groups) (auto simp: pushOrSet_Nil pushOrSet_Cons)

lemma mset_fold_tabs:
  "mset (concat (map snd
      (fold (\<lambda>tab groups.
               if isInternalUrl (url tab) then groups
               else pushOrSet (normalizeUrl lc (url tab) noOptions) tab groups) ts groups)))
   = mset (concat (map snd groups)) + mset (filter (\<lambda>t. \<not> isInternalUrl (url t)) ts)"
  by (induction ts arbitrary: groups) (simp_all add: mset_pushOrSet)

lemma mset_insertBy: "mset (insertBy cmp x ys) = add_mset x (mset ys)"
  by (induction ys) simp_all

lemma mset_jsSort: "mset (jsSort cmp xs) = mset xs"
  by (induction xs) (simp_all add: jsSort_def mset_insertBy)

lemma mset_groups_sub:
  "mset (concat (map tabs
      (map (\<lambda>(k, members). \<lparr>normalizedUrl = k, tabs = jsSort cmp members\<rparr>)
         (filter (\<lambda>(k, members). length members > 1) groups))))
   \<subseteq># mset (concat (map snd groups))"
proof (induction groups)
  case Nil
  show ?case by simp
next
  case (Cons g groups)
  obtain k ms where g: "g = (k, ms)" by (cases g)
  show ?case
  proof (cases "length ms > 1")
    case True
    with Cons g show ?thesis by (simp add: mset_jsSort)
  next
    case False
    with Cons g show ?thesis
      by (simp add: subset_mset.add_increasing)
  qed
qed

lemma findDuplicateTabs_sub: "mset (concat (map tabs (findDuplicateTabs lc ts))) \<subseteq># mset ts"
proof -
  have "mset (concat (map tabs (findDuplicateTabs lc ts)))
          \<subseteq># mset (concat (map snd (tabGroupsByNormalizedUrl lc ts)))"
    unfolding findDuplicateTabs_def by (rule mset_groups_sub)
  also have "\<dots> = mset (filter (\<lambda>t. \<not> isInternalUrl (url t)) ts)"
    by (simp add: tabGroupsByNormalizedUrl_def mset_fold_tabs)
  also have "\<dots> \<subseteq># mset ts" by simp
  finally show ?thesis .
qed

lemma distinct_sub:
  assumes "mset ys \<subseteq># mset xs" and "distinct xs"
  shows "distinct ys"
proof -
  have "count (mset ys) a \<le> 1" for a
  proof -
    have "count (mset ys) a \<le> count (mset xs) a"
      using assms(1) by (rule mset_subset_eq_count)
    also have "\<dots> \<le> 1" using assms(2) by (simp add: distinct_count_atmost_1)
    finally show ?thesis .
  qed
  then show ?thesis
    by (metis count_mset_0_iff distinct_count_atmost_1 le_antisym less_one not_le_imp_less
        count_greater_zero_iff set_mset_mset le_zero_eq)
qed

lemma findDuplicateTabs_distinct_ids:
  assumes "distinct (map tabId ts)"
  shows "distinct (map tabId (concat (map tabs (findDuplicateTabs lc ts))))"
proof -
  have "mset (map tabId (concat (map tabs (findDuplicateTabs lc ts)))) \<subseteq># mset (map tabId ts)"
    using image_mset_subseteq_mono [OF findDuplicateTabs_sub [of lc ts], of tabId]
    by (simp only: mset_map)
  then show ?thesis using assms by (rule distinct_sub)
qed

text \<open>
  Claim C3, as the code has it. For every list of duplicate groups,
  \<open>getDuplicateTabsToRemove\<close> returns exactly the ids of each group's members after the
  first that are not pinned, group by group and in order: it selects by position. When no
  tab id occurs twice among the members of the groups, the id of the first member of a
  group is not in the result; when members with the same id agree on \<open>pinned\<close>, the id
  of a pinned member is not in the result. The groups that \<open>findDuplicateTabs\<close> returns
  on tabs with different ids have no id twice.
\<close>

theorem getDuplicateTabsToRemove_correct:
  "getDuplicateTabsToRemove groups
     = concat (map (\<lambda>g. map tabId (filter (\<lambda>t. \<not> pinned t) (tl (tabs g)))) groups)
   \<and> (distinct (map tabId (concat (map tabs groups))) \<longrightarrow>
        (\<forall>g \<in> set groups. tabs g \<noteq> [] \<longrightarrow>
           tabId (hd (tabs g)) \<notin> set (getDuplicateTabsToRemove groups)))
   \<and> ((\<forall>t \<in> set (concat (map tabs groups)). \<forall>t' \<in> set (concat (map tabs groups)).
          tabId t = tabId t' \<longrightarrow> pinned t = pinned t') \<longrightarrow>
        (\<forall>g \<in> set groups. \<forall>t \<in> set (tabs g). pinned t \<longrightarrow>
           tabId t \<notin> set (getDuplicateTabsToRemove groups)))
   \<and> (distinct (map tabId ts) \<longrightarrow>
        distinct (map tabId (concat (map tabs (findDuplicateTabs lc ts)))))"
proof (intro conjI)
  show "getDuplicateTabsToRemove groups
          = concat (map (\<lambda>g. map tabId (filter (\<lambda>t. \<not> pinned t) (tl (tabs g)))) groups)"
    by (rule getDuplicateTabsToRemove_eq)
next
  show "distinct (map tabId (concat (map tabs groups))) \<longrightarrow>
        (\<forall>g \<in> set groups. tabs g \<noteq> [] \<longrightarrow>
           tabId (hd (tabs g)) \<notin> set (getDuplicateTabsToRemove groups))"
  proof (intro impI ballI)
    fix g
    assume "distinct (map tabId (concat (map tabs groups)))" "g \<in> set groups" "tabs g \<noteq> []"
    then show "tabId (hd (tabs g)) \<notin> set (getDuplicateTabsToRemove groups)"
      by (rule first_not_removed)
  qed
next
  show "(\<forall>t \<in> set (concat (map tabs groups)). \<forall>t' \<in> set (concat (map tabs groups)).
          tabId t = tabId t' \<longrightarrow> pinned t = pinned t') \<longrightarrow>
        (\<forall>g \<in> set groups. \<forall>t \<in> set (tabs g). pinned t \<longrightarrow>
           tabId t \<notin> set (getDuplicateTabsToRemove groups))"
  proof (intro impI ballI)
    fix g t
    assume "\<forall>t \<in> set (concat (map tabs groups)). \<forall>t' \<in> set (concat (map tabs groups)).
          tabId t = tabId t' \<longrightarrow> pinned t = pinned t'"
      "g \<in> set groups" "t \<in> set (tabs g)" "pinned t"
    then show "tabId t \<notin> set (getDuplicateTabsToRemove groups)"
      by (rule pinned_not_removed)
  qed
next
  show "distinct (map tabId ts) \<longrightarrow>
        distinct (map tabId (concat (map tabs (findDuplicateTabs lc ts))))"
    by (intro impI) (rule findDuplicateTabs_distinct_ids)
qed

text \<open>
  Against claim C3 as it is written, for every list of groups. For the tabs 5 and 1 of one
  url, in this order, the exact group is sorted by id and the near-duplicate group is in
  input order; on the two groups together the result holds the id of the first member of
  the first group. And in a group that lists a tab id twice, once pinned and once not,
  the result holds the id of the pinned member.
\<close>

theorem getDuplicateTabsToRemove_counterexample:
  "findDuplicateTabs codeUnitCompare
       [sampleTab 5 ''https://a.com/x'' False, sampleTab 1 ''https://a.com/x'' False]
     = [\<lparr>normalizedUrl = ''a.com/x'',
         tabs = [sampleTab 1 ''https://a.com/x'' False, sampleTab 5 ''https://a.com/x'' False]\<rparr>]
   \<and> findNearDuplicateTabs codeUnitCompare
       [sampleTab 5 ''https://a.com/x'' False, sampleTab 1 ''https://a.com/x'' False] (0.8)
     = [\<lparr>normalizedUrl = ''a.com/x'',
         tabs = [sampleTab 5 ''https://a.com/x'' False, sampleTab 1 ''https://a.com/x'' False]\<rparr>]
   \<and> getDuplicateTabsToRemove
       [\<lparr>normalizedUrl = ''a.com/x'',
         tabs = [sampleTab 1 ''https://a.com/x'' False, sampleTab 5 ''https://a.com/x'' False]\<rparr>,
        \<lparr>normalizedUrl = ''a.com/x'',
         tabs = [sampleTab 5 ''https://a.com/x'' False, sampleTab 1 ''https://a.com/x'' False]\<rparr>]
     = [5, 1]
   \<and> tabId (hd (tabs \<lparr>normalizedUrl = ''a.com/x'',
         tabs = [sampleTab 1 ''https://a.com/x'' False, sampleTab 5 ''https://a.com/x'' False]\<rparr>))
     \<in> set (getDuplicateTabsToRemove
       [\<lparr>normalizedUrl = ''a.com/x'',
         tabs = [sampleTab 1 ''https://a.com/x'' False, sampleTab 5 ''https://a.com/x'' False]\<rparr>,
        \<lparr>normalizedUrl = ''a.com/x'',
         tabs = [sampleTab 5 ''https://a.com/x'' False, sampleTab 1 ''https://a.com/x'' False]\<rparr>])
   \<and> pinned (sampleTab 2 ''https://a.com/x'' True)
   \<and> tabId (sampleTab 2 ''https://a.com/x'' True)
     \<in> set (getDuplicateTabsToRemove
       [\<lparr>normalizedUrl = ''a.com/x'',
         tabs = [sampleTab 1 ''https://a.com/x'' False, sampleTab 2 ''https://a.com/x'' True,
                 sampleTab 2 ''https://a.com/x'' False]\<rparr>])"
  by code_simp

theorem getDuplicateTabsToRemove_correct_witness:
  "distinct (map tabId (concat (map tabs
      [\<lparr>normalizedUrl = ''a.com'',
        tabs = [sampleTab 1 ''https://a.com/'' False, sampleTab 2 ''https://a.com/'' True,
                sampleTab 3 ''https://a.com/'' False]\<rparr>])))
   \<and> getDuplicateTabsToRemove
        [\<lparr>normalizedUrl = ''a.com'',
          tabs = [sampleTab 1 ''https://a.com/'' False, sampleTab 2 ''https://a.com/'' True,
                  sampleTab 3 ''https://a.com/'' False]\<rparr>] = [3]
   \<and> tabId (sampleTab 1 ''https://a.com/'' False) \<notin> set (getDuplicateTabsToRemove
        [\<lparr>normalizedUrl = ''a.com'',
          tabs = [sampleTab 1 ''https://a.com/'' False, sampleTab 2 ''https://a.com/'' True,
                  sampleTab 3 ''https://a.com/'' False]\<rparr>])
   \<and> tabId (sampleTab 2 ''https://a.com/'' True) \<notin> set (getDuplicateTabsToRemove
        [\<lparr>normalizedUrl = ''a.com'',
          tabs = [sampleTab 1 ''https://a.com/'' False, sampleTab 2 ''https://a.com/'' True,
                  sampleTab 3 ''https://a.com/'' False]\<rparr>])
   \<and> distinct (map tabId (concat (map tabs (findDuplicateTabs codeUnitCompare
        [sampleTab 1 ''https://a.com/'' False, sampleTab 2 ''https://a.com/'' True,
         sampleTab 3 ''https://a.com/'' False]))))"
proof -
  let ?t1 = "sampleTab 1 ''https://a.com/'' False"
  let ?t2 = "sampleTab 2 ''https://a.com/'' True"
  let ?t3 = "sampleTab 3 ''https://a.com/'' False"
  let ?g = "\<lparr>normalizedUrl = ''a.com'', tabs = [?t1, ?t2, ?t3]\<rparr>"
  note T = getDuplicateTabsToRemove_correct
    [where groups = "[?g]" and ts = "[?t1, ?t2, ?t3]" and lc = codeUnitCompare]
  have ids: "tabId ?t1 = 1" "tabId ?t2 = 2" "tabId ?t3 = 3"
    and pins: "\<not> pinned ?t1" "pinned ?t2" "\<not> pinned ?t3"
    by (simp_all add: sampleTab_def)
  have d: "distinct (map tabId (concat (map tabs [?g])))" by (simp add: ids)
  have same: "\<forall>t \<in> set (concat (map tabs [?g])). \<forall>t' \<in> set (concat (map tabs [?g])).
                tabId t = tabId t' \<longrightarrow> pinned t = pinned t'"
    by (simp add: ids pins)
  have dts: "distinct (map tabId [?t1, ?t2, ?t3])" by (simp add: ids)
  have eq: "getDuplicateTabsToRemove [?g] = [3]"
    using conjunct1 [OF T] by (simp add: ids pins)
  have g: "?g \<in> set [?g]" by simp
  have ne: "tabs ?g \<noteq> []" by simp
  have "tabId (hd (tabs ?g)) \<notin> set (getDuplicateTabsToRemove [?g])"
    using bspec [OF mp [OF conjunct1 [OF conjunct2 [OF T]] d] g] ne by (rule mp)
  then have first: "tabId ?t1 \<notin> set (getDuplicateTabsToRemove [?g])" by simp
  have t2: "?t2 \<in> set (tabs ?g)" by simp
  have pin: "tabId ?t2 \<notin> set (getDuplicateTabsToRemove [?g])"
    using bspec [OF bspec [OF mp [OF conjunct1 [OF conjunct2 [OF conjunct2 [OF T]]] same] g] t2]
      pins(2)
    by (rule mp)
  have out: "distinct (map tabId (concat (map tabs
      (findDuplicateTabs codeUnitCompare [?t1, ?t2, ?t3]))))"
    using conjunct2 [OF conjunct2 [OF conjunct2 [OF T]]] dts by (rule mp)
  show ?thesis using d eq first pin out by (intro conjI)
qed

section \<open>Properties of retry\<close>

lemma fails_obtain:
  assumes "\<forall>s. isl (fst (fn s))"
  obtains e s' where "fn s = (Inl e, s')"
proof -
  from assms have "isl (fst (fn s))" by simp
  then show ?thesis
    by (cases "fn s"; cases "fst (fn s)") (auto intro: that)
qed

lemma accepts_not_refused:
  assumes "case shouldRetry options of None \<Rightarrow> True | Some p \<Rightarrow> \<forall>e. p e"
  shows "\<not> (case shouldRetry options of None \<Rightarrow> False | Some p \<Rightarrow> \<not> p e)"
  using assms by (cases "shouldRetry options") simp_all

lemma retryLoop_all_fail:
  assumes fails: "\<forall>s. isl (fst (fn s))"
    and accepts: "case shouldRetry options of None \<Rightarrow> True | Some p \<Rightarrow> \<forall>e. p e"
  shows "k = nat (optMaxRetries options - int attempt) \<Longrightarrow> int attempt \<le> optMaxRetries options \<Longrightarrow>
     length (invocations (retryLoop fn options attempt le s calls slept)) = length calls + k + 1
     \<and> (\<exists>e. last (invocations (retryLoop fn options attempt le s calls slept)) = Inl e
            \<and> outcome (retryLoop fn options attempt le s calls slept) = Rejected (Some e))"
proof (induction k arbitrary: attempt le s calls slept)
  case 0
  obtain e s' where f: "fn s = (Inl e, s')" using fails by (rule fails_obtain)
  from 0 have last_attempt: "int attempt \<ge> optMaxRetries options" by simp
  show ?case
    using "0.prems"(2) last_attempt f accepts_not_refused [OF accepts, of e]
    by (subst (1 2 3) retryLoop.simps) simp
next
  case (Suc k)
  obtain e s' where f: "fn s = (Inl e, s')" using fails by (rule fails_obtain)
  from Suc.prems have more: "\<not> int attempt \<ge> optMaxRetries options" by simp
  from Suc.prems have k: "k = nat (optMaxRetries options - int (Suc attempt))"
    and le': "int (Suc attempt) \<le> optMaxRetries options" by simp_all
  note IH = Suc.IH [OF k le']
  show ?case
    using Suc.prems(2) more f accepts_not_refused [OF accepts, of e]
    by (subst (1 2 3) retryLoop.simps) (simp add: Let_def IH)
qed

lemma retry_refused:
  assumes "0 \<le> optMaxRetries options" and "fn s = (Inl e, s')"
    and "shouldRetry options = Some p" and "\<not> p e"
  shows "retry fn options s
           = \<lparr>outcome = Rejected (Some e), world = s', invocations = [Inl e], delays = []\<rparr>"
  using assms unfolding retry_def by (subst retryLoop.simps) simp

text \<open>
  Claim C9. With \<open>maxRetries\<close> 3 (the default), an operation that fails on every attempt,
  and no \<open>shouldRetry\<close> predicate that refuses an error, \<open>retry\<close> invokes the operation
  exactly 4 times and rejects with the error of the last invocation, as it was thrown. And
  whenever the first invocation fails with an error that a supplied \<open>shouldRetry\<close> refuses,
  the operation is invoked exactly once, \<open>retry\<close> rejects with that error and sleeps not at
  all (the loop runs at all when \<open>maxRetries\<close> is not negative).
\<close>

theorem retry_attempts:
  "(optMaxRetries options = 3 \<and> (\<forall>s. isl (fst (fn s)))
      \<and> (case shouldRetry options of None \<Rightarrow> True | Some p \<Rightarrow> \<forall>e. p e)
    \<longrightarrow> length (invocations (retry fn options s)) = 4
        \<and> (\<exists>e. last (invocations (retry fn options s)) = Inl e
               \<and> outcome (retry fn options s) = Rejected (Some e)))
   \<and> (0 \<le> optMaxRetries options \<and> fn s = (Inl e, s') \<and> shouldRetry options = Some p \<and> \<not> p e
    \<longrightarrow> invocations (retry fn options s) = [Inl e]
        \<and> outcome (retry fn options s) = Rejected (Some e)
        \<and> delays (retry fn options s) = [])"
proof (intro conjI impI)
  assume a: "optMaxRetries options = 3 \<and> (\<forall>s. isl (fst (fn s)))
      \<and> (case shouldRetry options of None \<Rightarrow> True | Some p \<Rightarrow> \<forall>e. p e)"
  then have k: "3 = nat (optMaxRetries options - int 0)" and le: "int 0 \<le> optMaxRetries options"
    by simp_all
  from a have fails: "\<forall>s. isl (fst (fn s))"
    and accepts: "case shouldRetry options of None \<Rightarrow> True | Some p \<Rightarrow> \<forall>e. p e"
    by simp_all
  note L = retryLoop_all_fail [OF fails accepts k le, of None s "[]" "[]", folded retry_def]
  from L show "length (invocations (retry fn options s)) = 4" by simp
  from L show "\<exists>e. last (invocations (retry fn options s)) = Inl e
                 \<and> outcome (retry fn options s) = Rejected (Some e)" by simp
next
  assume "0 \<le> optMaxRetries options \<and> fn s = (Inl e, s') \<and> shouldRetry options = Some p \<and> \<not> p e"
  then have "0 \<le> optMaxRetries options" "fn s = (Inl e, s')" "shouldRetry options = Some p" "\<not> p e"
    by simp_all
  then have r: "retry fn options s
           = \<lparr>outcome = Rejected (Some e), world = s', invocations = [Inl e], delays = []\<rparr>"
    by (rule retry_refused)
  show "invocations (retry fn options s) = [Inl e]" by (simp add: r)
  show "outcome (retry fn options s) = Rejected (Some e)" by (simp add: r)
  show "delays (retry fn options s) = []" by (simp add: r)
qed

theorem retry_attempts_witness:
  "optMaxRetries (noRetryOptions :: (nat, nat) RetryOptions) = 3
   \<and> (\<forall>s. isl (fst ((\<lambda>s::nat. (Inl s :: nat + unit, Suc s)) s)))
   \<and> length (invocations (retry (\<lambda>s::nat. (Inl s :: nat + unit, Suc s)) noRetryOptions 0)) = 4
   \<and> outcome (retry (\<lambda>s::nat. (Inl s :: nat + unit, Suc s)) noRetryOptions 0) = Rejected (Some 3)
   \<and> invocations (retry (\<lambda>s::nat. (Inl s :: nat + unit, Suc s))
        (noRetryOptions\<lparr>shouldRetry := Some (\<lambda>e. False)\<rparr>) 0) = [Inl 0]"
proof -
  let ?fn = "\<lambda>s::nat. (Inl s :: nat + unit, Suc s)"
  let ?o1 = "noRetryOptions :: (nat, nat) RetryOptions"
  let ?o2 = "?o1\<lparr>shouldRetry := Some (\<lambda>e. False)\<rparr>"
  have m1: "optMaxRetries ?o1 = 3" and m2: "0 \<le> optMaxRetries ?o2"
    by (simp_all add: optMaxRetries_def noRetryOptions_def)
  have fails: "\<forall>s. isl (fst (?fn s))" by simp
  have accepts: "case shouldRetry ?o1 of None \<Rightarrow> True | Some p \<Rightarrow> \<forall>e. p e"
    by (simp add: noRetryOptions_def)
  have four: "length (invocations (retry ?fn ?o1 0)) = 4"
    using retry_attempts [of ?o1 ?fn 0] m1 fails accepts by blast
  have out: "outcome (retry ?fn ?o1 0) = Rejected (Some 3)"
    by (simp add: retry_def retryLoop.simps noRetryOptions_def optMaxRetries_def)
  have once: "invocations (retry ?fn ?o2 0) = [Inl 0]"
    using retry_attempts [of ?o2 ?fn 0 0 "Suc 0" "\<lambda>e. False"] m2 by simp
  show ?thesis using m1 fails four out once by (intro conjI)
qed

section \<open>Properties of exact-duplicate clustering\<close>

lemma insertBy_diff: "insertBy (\<lambda>a b. f a - f b) x ys = insort_key (f :: 'a \<Rightarrow> int) x ys"
  by (induction ys) simp_all

lemma jsSort_diff: "jsSort (\<lambda>a b. f a - f b) xs = sort_key (f :: 'a \<Rightarrow> int) xs"
proof -
  have "insertBy (\<lambda>a b. f a - f b) = insort_key f"
    by (intro ext) (rule insertBy_diff)
  then show ?thesis by (simp add: jsSort_def sort_key_def)
qed

lemma update_entry:
  "(k', ms) \<in> set (AList.update k v al) \<Longrightarrow> (k', ms) = (k, v) \<or> (k', ms) \<in> set al"
  by (induction al) (auto split: if_splits)

lemma keyed_pushOrSet:
  assumes "keyed key groups"
  shows "keyed key (pushOrSet (key v) v groups)"
proof (cases "map_of groups (key v)")
  case None
  with assms show ?thesis
    by (auto simp: keyed_def pushOrSet_def dest!: update_entry)
next
  case (Some existing)
  then have "(key v, existing) \<in> set groups" by (rule map_of_SomeD)
  with assms have "\<forall>m \<in> set existing. key m = key v"
    by (auto simp: keyed_def)
  with assms Some show ?thesis
    by (auto simp: keyed_def pushOrSet_def dest!: update_entry)
qed

lemma keyed_fold_tabs:
  "keyed (\<lambda>t. normalizeUrl lc (url t) noOptions) groups \<Longrightarrow>
   keyed (\<lambda>t. normalizeUrl lc (url t) noOptions)
     (fold (\<lambda>tab groups.
              if isInternalUrl (url tab) then groups
              else pushOrSet (normalizeUrl lc (url tab) noOptions) tab groups) ts groups)"
proof (induction ts arbitrary: groups)
  case Nil
  then show ?case by simp
next
  case (Cons t ts)
  show ?case
    using Cons.IH [OF Cons.prems]
      Cons.IH [OF keyed_pushOrSet [where key = "\<lambda>t. normalizeUrl lc (url t) noOptions", OF Cons.prems]]
    by simp
qed

lemma keyed_tabGroups:
  "keyed (\<lambda>t. normalizeUrl lc (url t) noOptions) (tabGroupsByNormalizedUrl lc ts)"
  unfolding tabGroupsByNormalizedUrl_def
  by (rule keyed_fold_tabs) (simp add: keyed_def)

lemma keyedBookmarks_pushOrSet:
  assumes "keyedBookmarks lc groups" and "bookmarkKey lc v = Some k"
  shows "keyedBookmarks lc (pushOrSet k v groups)"
proof (cases "map_of groups k")
  case None
  with assms show ?thesis
    by (auto simp: keyedBookmarks_def pushOrSet_def dest!: update_entry)
next
  case (Some existing)
  then have "(k, existing) \<in> set groups" by (rule map_of_SomeD)
  with assms have "\<forall>m \<in> set existing. bookmarkKey lc m = Some k"
    by (auto simp: keyedBookmarks_def)
  with assms Some show ?thesis
    by (auto simp: keyedBookmarks_def pushOrSet_def dest!: update_entry)
qed

lemma keyed_fold_bookmarks:
  "keyedBookmarks lc groups \<Longrightarrow>
   keyedBookmarks lc
     (fold (\<lambda>bookmark groups.
              case bookmarkUrl bookmark of
                None \<Rightarrow> groups
              | Some u \<Rightarrow>
                  if u = [] then groups
                  else pushOrSet (normalizeUrl lc u noOptions) bookmark groups) bs groups)"
proof (induction bs arbitrary: groups)
  case Nil
  then show ?case by simp
next
  case (Cons b bs)
  show ?case
  proof (cases "bookmarkUrl b")
    case None
    with Cons.IH [OF Cons.prems] show ?thesis by simp
  next
    case (Some u)
    then have "bookmarkKey lc b = Some (normalizeUrl lc u noOptions)"
      by (simp add: bookmarkKey_def)
    from Cons.IH [OF keyedBookmarks_pushOrSet [OF Cons.prems this]] Cons.IH [OF Cons.prems] Some
    show ?thesis by simp
  qed
qed

lemma keyed_bookmarkGroups: "keyedBookmarks lc (bookmarkGroupsByNormalizedUrl lc bs)"
  unfolding bookmarkGroupsByNormalizedUrl_def
  by (rule keyed_fold_bookmarks) (simp add: keyedBookmarks_def)

lemma findDuplicateTabs_group:
  assumes "g \<in> set (findDuplicateTabs lc ts)"
  shows "2 \<le> length (tabs g)" and "sorted (map tabId (tabs g))"
    and "\<forall>t \<in> set (tabs g). normalizeUrl lc (url t) noOptions = normalizedUrl g"
proof -
  from assms obtain k ms where in_groups: "(k, ms) \<in> set (tabGroupsByNormalizedUrl lc ts)"
    and len: "1 < length ms"
    and g: "g = \<lparr>normalizedUrl = k, tabs = sort_key tabId ms\<rparr>"
    by (auto simp: findDuplicateTabs_def jsSort_diff)
  from len g show "2 \<le> length (tabs g)" by simp
  from g show "sorted (map tabId (tabs g))" by simp
  from keyed_tabGroups [of lc ts] in_groups g
  show "\<forall>t \<in> set (tabs g). normalizeUrl lc (url t) noOptions = normalizedUrl g"
    by (auto simp: keyed_def)
qed

lemma findDuplicateBookmarks_group:
  assumes "g \<in> set (findDuplicateBookmarks lc bs)"
  shows "2 \<le> length (bookmarks g)" and "sorted (map dateAddedOr0 (bookmarks g))"
    and "\<forall>b \<in> set (bookmarks g).
           \<exists>u. bookmarkUrl b = Some u \<and> normalizeUrl lc u noOptions = bookmarkNormalizedUrl g"
proof -
  from assms obtain k ms where in_groups: "(k, ms) \<in> set (bookmarkGroupsByNormalizedUrl lc bs)"
    and len: "1 < length ms"
    and g: "g = \<lparr>bookmarkNormalizedUrl = k, bookmarks = sort_key dateAddedOr0 ms\<rparr>"
    by (auto simp: findDuplicateBookmarks_def jsSort_diff)
  from len g show "2 \<le> length (bookmarks g)" by simp
  from g show "sorted (map dateAddedOr0 (bookmarks g))" by simp
  from keyed_bookmarkGroups [of lc bs] in_groups g
  show "\<forall>b \<in> set (bookmarks g).
           \<exists>u. bookmarkUrl b = Some u \<and> normalizeUrl lc u noOptions = bookmarkNormalizedUrl g"
    by (auto simp: keyedBookmarks_def bookmarkKey_def)
qed

text \<open>
  Claim C1. For every list of tabs, every group that \<open>findDuplicateTabs\<close> returns has at
  least 2 members, its members are in ascending order of id, and the url of every member
  normalizes under the default options to the group's \<open>normalizedUrl\<close>. For every list of
  bookmarks, every group that \<open>findDuplicateBookmarks\<close> returns has at least 2 members, in
  ascending order of \<open>dateAdded\<close> (a missing date counting as 0, as in the comparator), and
  every member has a url that normalizes to the group's \<open>normalizedUrl\<close>. This holds whatever
  the collation of the locale.
\<close>

theorem findDuplicates_groups:
  "(\<forall>g \<in> set (findDuplicateTabs lc ts).
      2 \<le> length (tabs g) \<and> sorted (map tabId (tabs g))
      \<and> (\<forall>t \<in> set (tabs g). normalizeUrl lc (url t) noOptions = normalizedUrl g))
   \<and> (\<forall>g \<in> set (findDuplicateBookmarks lc bs).
      2 \<le> length (bookmarks g) \<and> sorted (map dateAddedOr0 (bookmarks g))
      \<and> (\<forall>b \<in> set (bookmarks g).
            \<exists>u. bookmarkUrl b = Some u \<and> normalizeUrl lc u noOptions = bookmarkNormalizedUrl g))"
proof (intro conjI ballI)
  fix g assume g: "g \<in> set (findDuplicateTabs lc ts)"
  show "2 \<le> length (tabs g)" using g by (rule findDuplicateTabs_group)
  show "sorted (map tabId (tabs g))" using g by (rule findDuplicateTabs_group)
  fix t assume "t \<in> set (tabs g)"
  with findDuplicateTabs_group(3) [OF g]
  show "normalizeUrl lc (url t) noOptions = normalizedUrl g" by (rule bspec)
next
  fix g assume g: "g \<in> set (findDuplicateBookmarks lc bs)"
  show "2 \<le> length (bookmarks g)" using g by (rule findDuplicateBookmarks_group)
  show "sorted (map dateAddedOr0 (bookmarks g))" using g by (rule findDuplicateBookmarks_group)
  fix b assume "b \<in> set (bookmarks g)"
  with findDuplicateBookmarks_group(3) [OF g]
  show "\<exists>u. bookmarkUrl b = Some u \<and> normalizeUrl lc u noOptions = bookmarkNormalizedUrl g"
    by (rule bspec)
qed

theorem findDuplicates_groups_witness:
  "\<lparr>normalizedUrl = ''example.com/a'',
      tabs = [sampleTab 1 ''http://example.com/a?utm_source=x'' False,
              sampleTab 2 ''https://www.example.com/a/'' False]\<rparr>
     \<in> set (findDuplicateTabs codeUnitCompare
              [sampleTab 2 ''https://www.example.com/a/'' False,
               sampleTab 1 ''http://example.com/a?utm_source=x'' False])
   \<and> sorted (map tabId (tabs \<lparr>normalizedUrl = ''example.com/a'',
      tabs = [sampleTab 1 ''http://example.com/a?utm_source=x'' False,
              sampleTab 2 ''https://www.example.com/a/'' False]\<rparr>))
   \<and> normalizeUrl codeUnitCompare (url (sampleTab 2 ''https://www.example.com/a/'' False)) noOptions
       = ''example.com/a''
   \<and> \<lparr>bookmarkNormalizedUrl = ''example.com/a'',
      bookmarks = [sampleBookmark ''b2'' (Some ''https://example.com/a/'') (Some 10),
                   sampleBookmark ''b1'' (Some ''https://example.com/a'') (Some 20)]\<rparr>
     \<in> set (findDuplicateBookmarks codeUnitCompare
              [sampleBookmark ''b1'' (Some ''https://example.com/a'') (Some 20),
               sampleBookmark ''b2'' (Some ''https://example.com/a/'') (Some 10)])
   \<and> sorted (map dateAddedOr0 (bookmarks \<lparr>bookmarkNormalizedUrl = ''example.com/a'',
      bookmarks = [sampleBookmark ''b2'' (Some ''https://example.com/a/'') (Some 10),
                   sampleBookmark ''b1'' (Some ''https://example.com/a'') (Some 20)]\<rparr>))"
proof -
  let ?t1 = "sampleTab 1 ''http://example.com/a?utm_source=x'' False"
  let ?t2 = "sampleTab 2 ''https://www.example.com/a/'' False"
  let ?g = "\<lparr>normalizedUrl = ''example.com/a'', tabs = [?t1, ?t2]\<rparr>"
  let ?b1 = "sampleBookmark ''b1'' (Some ''https://example.com/a'') (Some 20)"
  let ?b2 = "sampleBookmark ''b2'' (Some ''https://example.com/a/'') (Some 10)"
  let ?h = "\<lparr>bookmarkNormalizedUrl = ''example.com/a'', bookmarks = [?b2, ?b1]\<rparr>"
  note T = findDuplicates_groups [of codeUnitCompare "[?t2, ?t1]" "[?b1, ?b2]"]
  have g: "?g \<in> set (findDuplicateTabs codeUnitCompare [?t2, ?t1])" by code_simp
  have h: "?h \<in> set (findDuplicateBookmarks codeUnitCompare [?b1, ?b2])" by code_simp
  note G = bspec [OF conjunct1 [OF T] g]
  note H = bspec [OF conjunct2 [OF T] h]
  have sg: "sorted (map tabId (tabs ?g))" using G by (elim conjE)
  have sh: "sorted (map dateAddedOr0 (bookmarks ?h))" using H by (elim conjE)
  have t2: "?t2 \<in> set (tabs ?g)" by simp
  have "\<forall>t \<in> set (tabs ?g). normalizeUrl codeUnitCompare (url t) noOptions = normalizedUrl ?g"
    using G by (elim conjE)
  from bspec [OF this t2]
  have n: "normalizeUrl codeUnitCompare (url ?t2) noOptions = ''example.com/a''"
    by (simp only: DuplicateGroup.simps)
  show ?thesis using g sg n h sh by (intro conjI)
qed

text \<open>
  Claim C8 says that no group of \<open>findDuplicateBookmarks\<close> holds a bookmark with an
  internal url. \<open>findDuplicateBookmarks\<close> skips only bookmarks without url and never asks
  \<open>isInternalUrl\<close>: two bookmarks of \<open>chrome://settings/\<close> make a group, where
  \<open>findDuplicateTabs\<close> on two tabs of the same url returns nothing.
\<close>

theorem findDuplicateBookmarks_keeps_internal:
  "isInternalUrl ''chrome://settings/''
   \<and> findDuplicateBookmarks codeUnitCompare
        [sampleBookmark ''1'' (Some ''chrome://settings/'') (Some 10),
         sampleBookmark ''2'' (Some ''chrome://settings/'') (Some 20)]
     = [\<lparr>bookmarkNormalizedUrl = ''chrome://settings/'',
         bookmarks = [sampleBookmark ''1'' (Some ''chrome://settings/'') (Some 10),
                      sampleBookmark ''2'' (Some ''chrome://settings/'') (Some 20)]\<rparr>]
   \<and> findDuplicateTabs codeUnitCompare
        [sampleTab 1 ''chrome://settings/'' False, sampleTab 2 ''chrome://settings/'' False] = []"
  by code_simp

section \<open>Properties of near-duplicate clustering\<close>

lemma countMatches_eq:
  "countMatches p1 p2 n i m = m + length (filter (\<lambda>j. elemAt p1 j = elemAt p2 j) [i..<n])"
proof (induction p1 p2 n i m rule: countMatches.induct)
  case (1 p1 p2 n i m)
  show ?case
  proof (cases "i < n")
    case True
    then have "[i..<n] = i # [Suc i..<n]" by (simp add: upt_conv_Cons)
    with True "1.IH" show ?thesis
      by (subst countMatches.simps) simp
  next
    case False
    then show ?thesis by (subst countMatches.simps) simp
  qed
qed

lemma elemAt_simps [simp]:
  "elemAt [] j = None"
  "elemAt (x # xs) 0 = Some x"
  "elemAt (x # xs) (Suc j) = elemAt xs j"
  by (simp_all add: elemAt_def)

lemma filter_upt_Suc:
  "length (filter P [0..<Suc n]) = (if P 0 then 1 else 0) + length (filter (\<lambda>j. P (Suc j)) [0..<n])"
proof -
  have "[0..<Suc n] = 0 # map Suc [0..<n]"
    by (simp add: upt_conv_Cons map_Suc_upt del: upt_Suc)
  then show ?thesis by (simp add: filter_map comp_def del: upt_Suc)
qed

lemma no_match_Nil_left: "filter (\<lambda>j. None = elemAt ys j) [0..<length ys] = []"
  by (auto simp: filter_empty_conv elemAt_def)

lemma no_match_Nil_right: "filter (\<lambda>j. elemAt xs j = None) [0..<length xs] = []"
  by (auto simp: filter_empty_conv elemAt_def)

lemma aligned_count:
  "length (filter (\<lambda>j. elemAt xs j = elemAt ys j) [0..<max (length xs) (length ys)])
     = alignedMatches xs ys"
proof (induction xs arbitrary: ys)
  case Nil
  show ?case by (simp add: alignedMatches_def no_match_Nil_left)
next
  case (Cons x xs)
  show ?case
  proof (cases ys)
    case Nil
    have "filter (\<lambda>j. elemAt (x # xs) j = None) [0..<length (x # xs)] = []"
      by (rule no_match_Nil_right)
    with Nil show ?thesis by (simp add: alignedMatches_def del: upt_Suc)
  next
    case (Cons y ys')
    have "max (length (x # xs)) (length (y # ys')) = Suc (max (length xs) (length ys'))"
      by simp
    with Cons.IH [of ys'] Cons show ?thesis
      by (simp add: filter_upt_Suc alignedMatches_def del: upt_Suc)
  qed
qed

lemma countMatches_aligned:
  "countMatches p1 p2 (max (length p1) (length p2)) 0 0 = alignedMatches p1 p2"
  by (simp add: countMatches_eq aligned_count)



text \<open>What \<open>areSimilarUrls\<close> computes, on two urls that parse.\<close>

lemma areSimilarUrls_parsed:
  assumes "parseUrl u1 = Some p1" and "parseUrl u2 = Some p2"
  shows "areSimilarUrls u1 u2 th \<longleftrightarrow>
     hostname p1 = hostname p2
     \<and> \<bar>int (length (pathSegments (pathname p1))) - int (length (pathSegments (pathname p2)))\<bar> \<le> 1
     \<and> ((length (pathSegments (pathname p1)) = 0 \<and> length (pathSegments (pathname p2)) = 0)
        \<or> th \<le> real (alignedMatches (pathSegments (pathname p1)) (pathSegments (pathname p2)))
                 / real (max (length (pathSegments (pathname p1)))
                             (length (pathSegments (pathname p2)))))"
proof -
  let ?s1 = "pathSegments (pathname p1)" and ?s2 = "pathSegments (pathname p2)"
  have zero: "max (length ?s1) (length ?s2) = 0 \<longleftrightarrow> length ?s1 = 0 \<and> length ?s2 = 0"
    by (cases ?s1; cases ?s2) simp_all
  have "areSimilarUrls u1 u2 th \<longleftrightarrow>
     (if hostname p1 \<noteq> hostname p2 then False
      else if \<bar>int (length ?s1) - int (length ?s2)\<bar> > 1 then False
      else if max (length ?s1) (length ?s2) = 0 then True
      else th \<le> real (alignedMatches ?s1 ?s2) / real (max (length ?s1) (length ?s2)))"
    using assms by (simp add: areSimilarUrls_def Let_def countMatches_aligned)
  also have "\<dots> \<longleftrightarrow>
     hostname p1 = hostname p2 \<and> \<bar>int (length ?s1) - int (length ?s2)\<bar> \<le> 1
     \<and> ((length ?s1 = 0 \<and> length ?s2 = 0)
        \<or> th \<le> real (alignedMatches ?s1 ?s2) / real (max (length ?s1) (length ?s2)))"
    unfolding zero by (auto simp: not_less)
  finally show ?thesis .
qed

lemma areSimilarUrls_parses:
  assumes "areSimilarUrls u1 u2 th"
  obtains p1 p2 where "parseUrl u1 = Some p1" "parseUrl u2 = Some p2"
  using assms by (auto simp: areSimilarUrls_def split: option.splits)



lemma clusterOk_Cons:
  "clusterOk th (r # others) \<longleftrightarrow> (\<forall>t \<in> set others. areSimilarUrls (url t) (url r) th)"
  by (simp add: clusterOk_def list_all_iff)

lemma addToClusters_ok:
  "\<forall>c \<in> set cs. clusterOk th c \<Longrightarrow> c \<in> set (addToClusters th t cs) \<Longrightarrow> clusterOk th c"
proof (induction cs)
  case Nil
  then show ?case by (simp add: clusterOk_def)
next
  case (Cons c0 cs)
  show ?case
  proof (cases c0)
    case Nil
    with Cons show ?thesis by auto
  next
    case (Cons r others)
    show ?thesis
    proof (cases "areSimilarUrls (url t) (url r) th")
      case True
      with Cons.prems Cons show ?thesis by (auto simp: clusterOk_Cons)
    next
      case False
      with Cons.prems Cons.IH Cons show ?thesis by auto
    qed
  qed
qed

lemma fold_addToClusters_ok:
  "\<forall>c \<in> set cs. clusterOk th c \<Longrightarrow> c \<in> set (fold (addToClusters th) ts cs) \<Longrightarrow> clusterOk th c"
proof (induction ts arbitrary: cs)
  case Nil
  then show ?case by simp
next
  case (Cons t ts)
  have "\<forall>c \<in> set (addToClusters th t cs). clusterOk th c"
    using Cons.prems(1) by (blast intro: addToClusters_ok)
  from Cons.IH [OF this] Cons.prems(2) show ?case by simp
qed

lemma clustersOf_ok: "c \<in> set (clustersOf th ts) \<Longrightarrow> clusterOk th c"
  unfolding clustersOf_def by (rule fold_addToClusters_ok [where cs = "[]"]) simp_all

lemma near_group:
  assumes "g \<in> set (findNearDuplicateTabs lc ts th)"
  shows "clusterOk th (tabs g)" and "1 < length (tabs g)"
proof -
  from assms obtain dts c where "c \<in> set (clustersOf th dts)" and "1 < length c"
    and "g = clusterGroup lc c"
    by (auto simp: findNearDuplicateTabs_def split: if_splits)
  then show "clusterOk th (tabs g)" and "1 < length (tabs g)"
    by (simp_all add: clustersOf_ok clusterGroup_def)
qed

lemma cluster_same_host:
  assumes ok: "clusterOk th c" and len: "1 < length c" and t: "t \<in> set c"
  shows "\<exists>p pr. parseUrl (url t) = Some p \<and> parseUrl (url (hd c)) = Some pr
           \<and> hostname p = hostname pr"
proof -
  from len obtain r o1 os where c: "c = r # o1 # os"
    by (cases c; cases "tl c") auto
  from ok c have all: "\<forall>t' \<in> set (o1 # os). areSimilarUrls (url t') (url r) th"
    by (simp only: clusterOk_Cons)
  then have "areSimilarUrls (url o1) (url r) th" by simp
  then obtain pr where pr: "parseUrl (url r) = Some pr"
    by (rule areSimilarUrls_parses)
  show ?thesis
  proof (cases "t = r")
    case True
    with pr c show ?thesis by simp
  next
    case False
    with t c all have sim: "areSimilarUrls (url t) (url r) th" by auto
    then obtain p where p: "parseUrl (url t) = Some p"
      by (rule areSimilarUrls_parses)
    from sim p pr have "hostname p = hostname pr" by (simp add: areSimilarUrls_parsed)
    with p pr c show ?thesis by simp
  qed
qed




text \<open>
  Claim C10. Any two tabs of a group that \<open>findNearDuplicateTabs\<close> returns have urls that
  parse, with the same hostname as the parser gives it. So a tab whose hostname is
  \<open>www.\<close> followed by the hostname of another tab is never in a group with that tab,
  although \<open>getDomain\<close> puts both into the same partition.
\<close>

theorem near_group_same_hostname:
  "(g \<in> set (findNearDuplicateTabs lc ts th) \<and> t1 \<in> set (tabs g) \<and> t2 \<in> set (tabs g)
      \<longrightarrow> (\<exists>p1 p2. parseUrl (url t1) = Some p1 \<and> parseUrl (url t2) = Some p2
                   \<and> hostname p1 = hostname p2))
   \<and> (g \<in> set (findNearDuplicateTabs lc ts th) \<and> t1 \<in> set (tabs g)
        \<and> parseUrl (url t1) = Some q1 \<and> parseUrl (url t2) = Some q2
        \<and> hostname q1 = ''www.'' @ hostname q2
      \<longrightarrow> t2 \<notin> set (tabs g))"
proof -
  have same: "\<exists>p1 p2. parseUrl (url a) = Some p1 \<and> parseUrl (url b) = Some p2
                   \<and> hostname p1 = hostname p2"
    if "g \<in> set (findNearDuplicateTabs lc ts th)" "a \<in> set (tabs g)" "b \<in> set (tabs g)"
    for a b
  proof -
    from that(1) have ok: "clusterOk th (tabs g)" and len: "1 < length (tabs g)"
      by (rule near_group)+
    from cluster_same_host [OF ok len that(2)] cluster_same_host [OF ok len that(3)]
    show ?thesis by auto
  qed
  show ?thesis
  proof (intro conjI impI)
    assume "g \<in> set (findNearDuplicateTabs lc ts th) \<and> t1 \<in> set (tabs g) \<and> t2 \<in> set (tabs g)"
    then show "\<exists>p1 p2. parseUrl (url t1) = Some p1 \<and> parseUrl (url t2) = Some p2
                   \<and> hostname p1 = hostname p2"
      using same by blast
  next
    assume a: "g \<in> set (findNearDuplicateTabs lc ts th) \<and> t1 \<in> set (tabs g)
        \<and> parseUrl (url t1) = Some q1 \<and> parseUrl (url t2) = Some q2
        \<and> hostname q1 = ''www.'' @ hostname q2"
    show "t2 \<notin> set (tabs g)"
    proof
      assume "t2 \<in> set (tabs g)"
      with a same [of t1 t2] have "hostname q1 = hostname q2" by auto
      with a have "length (hostname q2) = length (''www.'' @ hostname q2)" by simp
      then show False by simp
    qed
  qed
qed


theorem near_group_same_hostname_witness:
  "getDomain ''https://www.example.com/docs'' = getDomain ''https://example.com/docs''
   \<and> \<lparr>normalizedUrl = ''example.com/docs'',
       tabs = [sampleTab 1 ''https://www.example.com/docs'' False,
               sampleTab 3 ''https://www.example.com/docs'' False]\<rparr>
     \<in> set (findNearDuplicateTabs codeUnitCompare
              [sampleTab 1 ''https://www.example.com/docs'' False,
               sampleTab 2 ''https://example.com/docs'' False,
               sampleTab 3 ''https://www.example.com/docs'' False] (0.8))
   \<and> (\<exists>p1 p2. parseUrl (url (sampleTab 1 ''https://www.example.com/docs'' False)) = Some p1
         \<and> parseUrl (url (sampleTab 3 ''https://www.example.com/docs'' False)) = Some p2
         \<and> hostname p1 = hostname p2)
   \<and> sampleTab 2 ''https://example.com/docs'' False
     \<notin> set (tabs \<lparr>normalizedUrl = ''example.com/docs'',
       tabs = [sampleTab 1 ''https://www.example.com/docs'' False,
               sampleTab 3 ''https://www.example.com/docs'' False]\<rparr>)"
proof -
  let ?q1 = "\<lparr>protocol = ''https:'', hostname = ''www.example.com'', pathname = ''/docs'',
               search = [], hash = []\<rparr>"
  let ?q2 = "\<lparr>protocol = ''https:'', hostname = ''example.com'', pathname = ''/docs'',
               search = [], hash = []\<rparr>"
  let ?t1 = "sampleTab 1 ''https://www.example.com/docs'' False"
  let ?t2 = "sampleTab 2 ''https://example.com/docs'' False"
  let ?t3 = "sampleTab 3 ''https://www.example.com/docs'' False"
  let ?g = "\<lparr>normalizedUrl = ''example.com/docs'', tabs = [?t1, ?t3]\<rparr>"
  have d: "getDomain ''https://www.example.com/docs'' = getDomain ''https://example.com/docs''"
    by code_simp
  have g: "?g \<in> set (findNearDuplicateTabs codeUnitCompare [?t1, ?t2, ?t3] (0.8))"
    by code_simp
  have t1: "?t1 \<in> set (tabs ?g)" and t3: "?t3 \<in> set (tabs ?g)" by simp_all
  have u1: "parseUrl ''https://www.example.com/docs'' = Some ?q1" by code_simp
  have u2: "parseUrl ''https://example.com/docs'' = Some ?q2" by code_simp
  have q1: "parseUrl (url ?t1) = Some ?q1" unfolding sampleTab_def using u1 by simp
  have q2: "parseUrl (url ?t2) = Some ?q2" unfolding sampleTab_def using u2 by simp
  have www: "hostname ?q1 = ''www.'' @ hostname ?q2" by simp
  have same: "\<exists>p1 p2. parseUrl (url ?t1) = Some p1 \<and> parseUrl (url ?t3) = Some p2
         \<and> hostname p1 = hostname p2"
    using mp [OF conjunct1 [OF near_group_same_hostname
        [of ?g codeUnitCompare "[?t1, ?t2, ?t3]" "0.8" ?t1 ?t3]] conjI [OF g conjI [OF t1 t3]]] .
  have apart: "?t2 \<notin> set (tabs ?g)"
    using mp [OF conjunct2 [OF near_group_same_hostname
        [of ?g codeUnitCompare "[?t1, ?t2, ?t3]" "0.8" ?t1 ?t2 ?q1 ?q2]]
        conjI [OF g conjI [OF t1 conjI [OF q1 conjI [OF q2 www]]]]] .
  show ?thesis using d g same apart by (intro conjI)
qed

section \<open>Properties of the normalizer\<close>

lemma isDomainChar_hostSafe: "isDomainChar c \<Longrightarrow> hostSafe c"
  by (auto simp: isDomainChar_def hostSafe_def isForbiddenHostChar_def isC0OrSpace_def Let_def)

lemma toLowerChar_hostSafe:
  assumes "hostSafe c"
  shows "hostSafe (toLowerChar c)"
proof (cases "65 \<le> (of_char c :: nat) \<and> (of_char c :: nat) \<le> 90")
  case False
  with assms show ?thesis by (auto simp: toLowerChar_def Let_def)
next
  case True
  let ?n = "of_char c :: nat"
  have code: "of_char (char_of (?n + 32) :: char) = ?n + 32"
    using True by (simp add: of_char_of)
  have "(char_of (?n + 32) :: char) \<noteq> CHR '':''"
  proof
    assume "(char_of (?n + 32) :: char) = CHR '':''"
    then have "(of_char (char_of (?n + 32) :: char) :: nat) = of_char CHR '':''" by simp
    with code True show False by simp
  qed
  with True code show ?thesis
    by (auto simp: toLowerChar_def Let_def hostSafe_def isC0OrSpace_def)
qed

lemma toLowerCase_hostSafe: "\<forall>c \<in> set h. hostSafe c \<Longrightarrow> \<forall>c \<in> set (toLowerCase h). hostSafe c"
  by (auto simp: toLowerCase_def toLowerChar_hostSafe)

lemma startingAt_head: "startingAt d s = [] \<or> hd (startingAt d s) = d"
  unfolding startingAt_def by (metis (mono_tags, lifting) hd_dropWhile)

lemma parseSpecial_fields:
  assumes "parseSpecial scheme body q h = Some p"
  shows "\<forall>c \<in> set (hostname p). hostSafe c" and "pathname p \<noteq> []"
    and "hd (pathname p) = CHR ''/''"
proof -
  let ?afterSlashes = "dropWhile (\<lambda>c. c = CHR ''/'') (backslashToSlash body)"
  let ?host = "upTo (CHR '':'') (afterCredentials (upTo (CHR ''/'') ?afterSlashes))"
  let ?path = "startingAt (CHR ''/'') ?afterSlashes"
  from assms have ok: "list_all isDomainChar ?host"
    and p: "p = \<lparr>protocol = scheme @ '':'', hostname = toLowerCase ?host,
                 pathname = (if ?path = [] then ''/'' else ?path), search = q, hash = h\<rparr>"
    by (auto simp: parseSpecial_def Let_def split: if_splits)
  from ok have "\<forall>c \<in> set ?host. hostSafe c"
    by (auto simp: list_all_iff isDomainChar_hostSafe)
  then show "\<forall>c \<in> set (hostname p). hostSafe c"
    unfolding p by (simp add: toLowerCase_hostSafe)
  show "pathname p \<noteq> []" unfolding p by simp
  show "hd (pathname p) = CHR ''/''"
    unfolding p using startingAt_head [of "CHR ''/''" ?afterSlashes] by auto
qed

lemma parseUrl_http:
  assumes "parseUrl u = Some p" and "protocol p \<in> set [''http:'', ''https:'']"
  obtains scheme body q h where "parseSpecial scheme body q h = Some p"
proof -
  let ?s = "preprocess u"
  let ?scheme = "toLowerCase (upTo (CHR '':'') ?s)"
  let ?afterColon = "tl (startingAt (CHR '':'') ?s)"
  let ?body = "upTo (CHR ''?'') (upTo (CHR ''#'') ?afterColon)"
  let ?query = "startingAt (CHR ''?'') (upTo (CHR ''#'') ?afterColon)"
  let ?fragment = "startingAt (CHR ''#'') ?afterColon"
  let ?q = "if length ?query > 1 then ?query else []"
  let ?h = "if length ?fragment > 1 then ?fragment else []"
  have "parseUrl u =
      (if startingAt (CHR '':'') ?s = [] \<or> \<not> validScheme (upTo (CHR '':'') ?s) then None
       else if ?scheme \<in> set specialSchemes then parseSpecial ?scheme ?body ?q ?h
       else if ?scheme = ''file'' then parseFile ?body ?q ?h
       else parseOther ?scheme ?body ?q ?h)"
    unfolding parseUrl_def Let_def by (rule refl)
  with assms(1) have branches:
    "(if ?scheme \<in> set specialSchemes then parseSpecial ?scheme ?body ?q ?h
      else if ?scheme = ''file'' then parseFile ?body ?q ?h
      else parseOther ?scheme ?body ?q ?h) = Some p"
    by (cases "startingAt (CHR '':'') ?s = [] \<or> \<not> validScheme (upTo (CHR '':'') ?s)")
       (simp_all only: if_True if_False option.simps)
  show ?thesis
  proof (cases "?scheme \<in> set specialSchemes")
    case True
    with branches have "parseSpecial ?scheme ?body ?q ?h = Some p" by simp
    then show ?thesis by (rule that)
  next
    case False
    show ?thesis
    proof (cases "?scheme = ''file''")
      case True
      with False branches have "parseFile ?body ?q ?h = Some p" by simp
      then have "protocol p = ''file:''"
        by (auto simp: parseFile_def Let_def split: if_splits)
      with assms(2) show ?thesis by simp
    next
      case notfile: False
      with False branches have "parseOther ?scheme ?body ?q ?h = Some p" by simp
      then have "protocol p = ?scheme @ '':''"
        by (auto simp: parseOther_def Let_def split: if_splits)
      with assms(2) have "?scheme = ''http'' \<or> ?scheme = ''https''"
        by (auto simp: append_eq_Cons_conv)
      with False show ?thesis by (auto simp: specialSchemes_def)
    qed
  qed
qed

lemma opt_noOptions [simp]:
  "opt stripTracking noOptions" "opt stripWww noOptions" "opt stripProtocol noOptions"
  "opt stripTrailingSlash noOptions" "opt stripHash noOptions" "opt lowercase noOptions"
  "opt sortParams noOptions"
  by (simp_all add: opt_def noOptions_def DEFAULT_OPTIONS_def)

lemma processSearchParams_fields:
  "pathname (processSearchParams lc noOptions p) = pathname p"
  "search (processSearchParams lc noOptions p) = []
     \<or> hd (search (processSearchParams lc noOptions p)) = CHR ''?''"
  by (simp_all add: processSearchParams_def setSearch_def Let_def)

lemma toLowerChar_no_colon:
  assumes "c \<noteq> CHR '':''"
  shows "toLowerChar c \<noteq> CHR '':''"
proof (cases "65 \<le> (of_char c :: nat) \<and> (of_char c :: nat) \<le> 90")
  case False
  then have "toLowerChar c = c" by (auto simp: toLowerChar_def Let_def)
  with assms show ?thesis by simp
next
  case True
  let ?n = "of_char c :: nat"
  have lower: "toLowerChar c = char_of (?n + 32)"
    using True by (simp add: toLowerChar_def Let_def)
  have code: "of_char (char_of (?n + 32) :: char) = ?n + 32"
    using True by (simp add: of_char_of)
  show ?thesis
  proof
    assume "toLowerChar c = CHR '':''"
    then have "(of_char (char_of (?n + 32) :: char) :: nat) = of_char CHR '':''"
      unfolding lower by (rule arg_cong)
    with code True show False by simp
  qed
qed

lemma toLowerCase_no_colon:
  assumes "CHR '':'' \<notin> set h"
  shows "CHR '':'' \<notin> set (toLowerCase h)"
proof
  assume "CHR '':'' \<in> set (toLowerCase h)"
  then obtain c where c: "c \<in> set h" and eq: "toLowerChar c = CHR '':''"
    unfolding toLowerCase_def set_map by (elim imageE) (rule that, simp_all)
  from c assms have "c \<noteq> CHR '':''" by blast
  then have "toLowerChar c \<noteq> CHR '':''" by (rule toLowerChar_no_colon)
  with eq show False by contradiction
qed

lemma stripWwwPrefix_no_colon: "CHR '':'' \<notin> set h \<Longrightarrow> CHR '':'' \<notin> set (stripWwwPrefix h)"
  by (auto simp: stripWwwPrefix_def dest: in_set_dropD)

lemma bracket_kept:
  assumes "take 1 h = ''[''"
  shows "take 1 (toLowerCase (stripWwwPrefix h)) = ''[''"
proof -
  from assms obtain h0 where h: "h = CHR ''['' # h0" by (cases h) auto
  then have "stripWwwPrefix h = h" by (simp add: stripWwwPrefix_def)
  moreover have "toLowerChar (CHR ''['') = CHR ''[''" by (simp add: toLowerChar_def)
  ultimately show ?thesis using h by (simp add: toLowerCase_def)
qed

text \<open>
  The shape of a normalized web URL under the default options: the host, without colon or
  in brackets, then nothing, a path or a query.
\<close>

lemma normalizeUrlWith_shape:
  assumes p: "parse u = Some p" and web: "protocol p \<in> set [''http:'', ''https:'']"
    and host: "CHR '':'' \<notin> set (hostname p) \<or> take 1 (hostname p) = ''[''"
    and slash: "take 1 (pathname p) = ''/''"
  shows "\<exists>h r. normalizeUrlWith parse lc u noOptions = h @ r
           \<and> (CHR '':'' \<notin> set h \<or> take 1 h = ''['')
           \<and> (r = [] \<or> hd r = CHR ''/'' \<or> hd r = CHR ''?'')"
proof -
  define h where "h = toLowerCase (stripWwwPrefix (hostname p))"
  define path where "path = pathname p"
  define s where "s = search (processSearchParams lc noOptions p)"
  define path' where
    "path' = (if last (h @ path) = CHR ''/'' \<and> length (h @ path) > 1 then butlast path else path)"
  from slash obtain cs where path: "path = CHR ''/'' # cs"
    by (cases "pathname p") (auto simp: path_def)
  have hs: "CHR '':'' \<notin> set h \<or> take 1 h = ''[''"
  proof (cases "take 1 (hostname p) = ''[''")
    case True
    then have "take 1 h = ''[''" unfolding h_def by (rule bracket_kept)
    then show ?thesis ..
  next
    case False
    with host have "CHR '':'' \<notin> set (hostname p)" by simp
    then have "CHR '':'' \<notin> set h"
      unfolding h_def by (intro toLowerCase_no_colon stripWwwPrefix_no_colon)
    then show ?thesis ..
  qed
  have s: "s = [] \<or> hd s = CHR ''?''"
    unfolding s_def by (rule processSearchParams_fields)
  have path': "path' = [] \<or> hd path' = CHR ''/''"
  proof (cases "path' = path")
    case True
    with path show ?thesis by simp
  next
    case False
    then have "path' = butlast path" by (simp add: path'_def split: if_splits)
    with path show ?thesis by (cases cs) auto
  qed
  have pne: "path \<noteq> []" using path by simp
  have "normalizeUrlWith parse lc u noOptions = h @ (path' @ s)"
  proof (cases "last (h @ path) = CHR ''/'' \<and> length (h @ path) > 1")
    case True
    then have "path' = butlast path" by (simp add: path'_def)
    with True p web pne show ?thesis
      by (simp add: normalizeUrlWith_def Let_def processSearchParams_fields(1) butlast_append
          h_def [symmetric] path_def [symmetric] s_def [symmetric])
  next
    case False
    then have "path' = path" by (auto simp: path'_def)
    with False p web pne show ?thesis
      by (auto simp: normalizeUrlWith_def Let_def processSearchParams_fields(1)
          h_def [symmetric] path_def [symmetric] s_def [symmetric])
  qed
  moreover have "path' @ s = [] \<or> hd (path' @ s) = CHR ''/'' \<or> hd (path' @ s) = CHR ''?''"
    using path' s by (cases path') auto
  ultimately show ?thesis using hs by blast
qed

lemma isSchemeChar_not: "\<not> isSchemeChar (CHR ''/'')" "\<not> isSchemeChar (CHR ''?'')"
  by (simp_all add: isSchemeChar_def isAsciiAlnum_def isAsciiAlpha_def isAsciiDigit_def)

lemma validScheme_chars: "validScheme s \<Longrightarrow> c \<in> set s \<Longrightarrow> isSchemeChar c"
  by (cases s) (auto simp: validScheme_def list_all_iff isSchemeChar_def isAsciiAlnum_def)

lemma not_space: "\<not> isC0OrSpace (CHR ''/'')" "\<not> isC0OrSpace (CHR ''?'')" "\<not> isC0OrSpace (CHR '':'')"
  "\<not> isC0OrSpace (CHR ''['')"
  "\<not> isTabOrNewline (CHR ''/'')" "\<not> isTabOrNewline (CHR ''?'')" "\<not> isTabOrNewline (CHR '':'')"
  "\<not> isTabOrNewline (CHR ''['')"
  by (simp_all add: isC0OrSpace_def isTabOrNewline_def)

lemma takeWhile_stop: "\<forall>x \<in> set xs. P x \<Longrightarrow> \<not> P y \<Longrightarrow> takeWhile P (xs @ y # ys) = xs"
  by (induction xs) auto

lemma dropWhile_keeps: "x \<in> set xs \<Longrightarrow> \<not> P x \<Longrightarrow> x \<in> set (dropWhile P xs)"
  by (induction xs) auto

text \<open>
  The scheme candidate of a string whose first colon comes after \<open>a\<close>: what stripping
  and the removal of tabs and newlines leave of \<open>a\<close>.
\<close>

lemma upTo_preprocess:
  assumes nocolon: "CHR '':'' \<notin> set a"
  shows "upTo (CHR '':'') (preprocess (a @ CHR '':'' # b))
           = filter (\<lambda>c. \<not> isTabOrNewline c) (dropWhile isC0OrSpace a)"
proof -
  let ?s = "a @ CHR '':'' # b"
  let ?a = "dropWhile isC0OrSpace a"
  have front: "dropWhile isC0OrSpace ?s = ?a @ CHR '':'' # b"
    by (simp add: dropWhile_append3 not_space)
  have "rev (?a @ CHR '':'' # b) = rev b @ CHR '':'' # rev ?a" by simp
  then have "dropWhile isC0OrSpace (rev (?a @ CHR '':'' # b))
               = dropWhile isC0OrSpace (rev b) @ CHR '':'' # rev ?a"
    by (simp add: dropWhile_append3 not_space)
  then have trail: "rev (dropWhile isC0OrSpace (rev (?a @ CHR '':'' # b)))
               = ?a @ CHR '':'' # rev (dropWhile isC0OrSpace (rev b))"
    by simp
  have "preprocess ?s = filter (\<lambda>c. \<not> isTabOrNewline c) ?a
          @ CHR '':'' # filter (\<lambda>c. \<not> isTabOrNewline c) (rev (dropWhile isC0OrSpace (rev b)))"
    unfolding preprocess_def front trail by (simp add: not_space)
  moreover have "\<forall>c \<in> set (filter (\<lambda>c. \<not> isTabOrNewline c) ?a). c \<noteq> CHR '':''"
    using nocolon by (auto dest: set_dropWhileD)
  ultimately show ?thesis
    unfolding upTo_def by (simp only: takeWhile_stop simp_thms)
qed

lemma preprocess_subset: "set (preprocess s) \<subseteq> set s"
  by (auto simp: preprocess_def dest!: set_dropWhileD)

lemma preprocess_head:
  assumes "\<not> isC0OrSpace c"
  shows "\<exists>y. preprocess (c # x) = c # y"
proof -
  have "dropWhile isC0OrSpace (rev x @ [c]) = dropWhile isC0OrSpace (rev x) @ [c]"
    using assms by (simp add: dropWhile_append3)
  then have "rev (dropWhile isC0OrSpace (rev (c # x))) = c # rev (dropWhile isC0OrSpace (rev x))"
    by simp
  moreover have "\<not> isTabOrNewline c"
    using assms by (auto simp: isTabOrNewline_def isC0OrSpace_def Let_def)
  ultimately show ?thesis using assms by (simp add: preprocess_def)
qed

lemma no_scheme:
  assumes hs: "CHR '':'' \<notin> set h \<or> take 1 h = ''[''"
    and r: "r = [] \<or> hd r = CHR ''/'' \<or> hd r = CHR ''?''"
  shows "\<not> hasScheme (h @ r)"
proof (cases "take 1 h = ''[''")
  case True
  then obtain h0 where "h = CHR ''['' # h0" by (cases h) auto
  then obtain y where y: "preprocess (h @ r) = CHR ''['' # y"
    using preprocess_head [of "CHR ''[''" "h0 @ r"] by (auto simp: not_space)
  have "\<not> isAsciiAlpha (CHR ''['')" by (simp add: isAsciiAlpha_def)
  then have "\<not> validScheme (upTo (CHR '':'') (preprocess (h @ r)))"
    unfolding y by (simp add: upTo_def validScheme_def)
  then show ?thesis by (simp add: hasScheme_def)
next
  case False
  with hs have hc: "CHR '':'' \<notin> set h" by simp
  show ?thesis
  proof (cases "CHR '':'' \<in> set (h @ r)")
    case False
    with preprocess_subset [of "h @ r"] have "CHR '':'' \<notin> set (preprocess (h @ r))" by blast
    then have "startingAt (CHR '':'') (preprocess (h @ r)) = []"
      by (auto simp: startingAt_def dropWhile_eq_Nil_conv)
    then show ?thesis by (simp add: hasScheme_def)
  next
    case True
    with hc have "CHR '':'' \<in> set r" by simp
    with r obtain c r' where r': "r = c # r'" and c: "c = CHR ''/'' \<or> c = CHR ''?''"
      by (cases r) auto
    with \<open>CHR '':'' \<in> set r\<close> have "CHR '':'' \<in> set r'" by auto
    then obtain x y where split: "r' = x @ CHR '':'' # y" and x: "CHR '':'' \<notin> set x"
      by (meson split_list_first)
    let ?a = "h @ c # x"
    have a: "CHR '':'' \<notin> set ?a" using hc c x by auto
    have eq: "h @ r = ?a @ CHR '':'' # y" by (simp add: r' split)
    have cand: "upTo (CHR '':'') (preprocess (h @ r))
                  = filter (\<lambda>c. \<not> isTabOrNewline c) (dropWhile isC0OrSpace ?a)"
      unfolding eq by (rule upTo_preprocess [OF a])
    have "c \<in> set (dropWhile isC0OrSpace ?a)"
      using c by (intro dropWhile_keeps) (auto simp: not_space)
    then have "c \<in> set (filter (\<lambda>c. \<not> isTabOrNewline c) (dropWhile isC0OrSpace ?a))"
      using c by (auto simp: not_space)
    moreover have "\<not> isSchemeChar c" using c by (auto simp: isSchemeChar_not)
    ultimately have "\<not> validScheme (upTo (CHR '':'') (preprocess (h @ r)))"
      unfolding cand by (blast dest: validScheme_chars)
    then show ?thesis by (simp add: hasScheme_def)
  qed
qed

text \<open>The model of the URL constructor has the two facts.\<close>

lemma standardUrlParser_parseUrl: "standardUrlParser parseUrl"
  unfolding standardUrlParser_def
proof (intro allI impI conjI)
  fix s p assume p: "parseUrl s = Some p"
  then show "hasScheme s"
    by (auto simp: parseUrl_def hasScheme_def Let_def split: if_splits)
  assume web: "protocol p \<in> set [''http:'', ''https:'']"
  from p web obtain scheme body q h where "parseSpecial scheme body q h = Some p"
    by (rule parseUrl_http)
  then have host: "\<forall>c \<in> set (hostname p). hostSafe c" and ne: "pathname p \<noteq> []"
    and slash: "hd (pathname p) = CHR ''/''"
    by (rule parseSpecial_fields)+
  from host show "CHR '':'' \<notin> set (hostname p) \<or> take 1 (hostname p) = ''[''"
    by (auto simp: hostSafe_def)
  from ne slash show "take 1 (pathname p) = ''/''" by (cases "pathname p") auto
qed

text \<open>
  Claim C5. For every valid http or https URL \<open>u\<close> (one that the URL constructor parses,
  with protocol \<open>http:\<close> or \<open>https:\<close>), normalizing with the default options twice gives
  what normalizing once gives: the normalized string has lost its scheme, so the
  constructor refuses it and the second call returns it unchanged. This holds for every
  URL constructor that has the two facts of the URL standard stated in
  \<open>standardUrlParser\<close> (hosts in brackets, rewritten hosts and encoded paths included),
  and whatever the collation.
\<close>

theorem normalizeUrl_idempotent:
  assumes "standardUrlParser parse"
    and "parse u = Some p" and "protocol p \<in> set [''http:'', ''https:'']"
  shows "normalizeUrlWith parse lc (normalizeUrlWith parse lc u noOptions) noOptions
           = normalizeUrlWith parse lc u noOptions"
proof -
  from assms have host: "CHR '':'' \<notin> set (hostname p) \<or> take 1 (hostname p) = ''[''"
    and slash: "take 1 (pathname p) = ''/''"
    unfolding standardUrlParser_def by blast+
  have "\<exists>h r. normalizeUrlWith parse lc u noOptions = h @ r
           \<and> (CHR '':'' \<notin> set h \<or> take 1 h = ''['')
           \<and> (r = [] \<or> hd r = CHR ''/'' \<or> hd r = CHR ''?'')"
    using assms(2,3) host slash by (rule normalizeUrlWith_shape)
  then obtain h r
    where out: "normalizeUrlWith parse lc u noOptions = h @ r"
      and h: "CHR '':'' \<notin> set h \<or> take 1 h = ''[''"
      and r: "r = [] \<or> hd r = CHR ''/'' \<or> hd r = CHR ''?''" by blast
  from h r have "\<not> hasScheme (h @ r)" by (rule no_scheme)
  with assms(1) have "parse (h @ r) = None"
    unfolding standardUrlParser_def by (cases "parse (h @ r)") auto
  then show ?thesis
    unfolding out by (simp add: normalizeUrlWith_def)
qed

theorem normalizeUrl_idempotent_witness:
  "standardUrlParser parseUrl
   \<and> isValidHttpUrl ''http://www.Example.com/foo/?b=2&utm_source=x&a=1#frag''
   \<and> normalizeUrl codeUnitCompare ''http://www.Example.com/foo/?b=2&utm_source=x&a=1#frag'' noOptions
       = ''example.com/foo?a=1&b=2''
   \<and> normalizeUrl codeUnitCompare ''example.com/foo?a=1&b=2'' noOptions = ''example.com/foo?a=1&b=2''"
proof -
  let ?u = "''http://www.Example.com/foo/?b=2&utm_source=x&a=1#frag''"
  let ?p = "\<lparr>protocol = ''http:'', hostname = ''www.example.com'', pathname = ''/foo/'',
              search = ''?b=2&utm_source=x&a=1'', hash = ''#frag''\<rparr>"
  have std: "standardUrlParser parseUrl" by (rule standardUrlParser_parseUrl)
  have p: "parseUrl ?u = Some ?p" by code_simp
  have web: "protocol ?p \<in> set [''http:'', ''https:'']" by simp
  have v: "isValidHttpUrl ?u" by code_simp
  have n: "normalizeUrl codeUnitCompare ?u noOptions = ''example.com/foo?a=1&b=2''" by code_simp
  have "normalizeUrlWith parseUrl codeUnitCompare
          (normalizeUrlWith parseUrl codeUnitCompare ?u noOptions) noOptions
          = normalizeUrlWith parseUrl codeUnitCompare ?u noOptions"
    using std p web by (rule normalizeUrl_idempotent)
  then have "normalizeUrl codeUnitCompare (normalizeUrl codeUnitCompare ?u noOptions) noOptions
          = normalizeUrl codeUnitCompare ?u noOptions"
    by (simp only: normalizeUrl_def)
  then have "normalizeUrl codeUnitCompare ''example.com/foo?a=1&b=2'' noOptions
          = ''example.com/foo?a=1&b=2''"
    unfolding n .
  with std v n show ?thesis by (intro conjI)
qed

lemma setFirst_keys: "set (map fst (setFirst k v ps)) \<subseteq> insert k (set (map fst ps))"
  by (induction ps) auto

lemma distinct_setFirst: "distinct (map fst ps) \<Longrightarrow> distinct (map fst (setFirst k v ps))"
proof (induction ps)
  case Nil
  show ?case by simp
next
  case (Cons p ps)
  show ?case
  proof (cases "fst p = k")
    case True
    with Cons.prems show ?thesis by (auto simp: distinct_map_filter)
  next
    case False
    with Cons setFirst_keys [of k v ps] show ?thesis by auto
  qed
qed

lemma distinct_paramsSet: "distinct (map fst ps) \<Longrightarrow> distinct (map fst (paramsSet k v ps))"
  by (simp add: paramsSet_def distinct_setFirst)

lemma distinct_rebuildParams:
  "distinct (map fst params) \<Longrightarrow> distinct (map fst (rebuildParams strip entries params))"
  by (induction strip entries params rule: rebuildParams.induct) (simp_all add: distinct_paramsSet)

text \<open>
  Claim C6 says that pairs with an equal key all survive into the rebuilt query. The loop
  writes every pair with \<open>params.set\<close>, which replaces the value of the key: whatever the
  entries, the rebuilt parameters never hold two pairs with the same key, and of the two
  pairs of \<open>?a=1&a=2\<close> the pair \<open>a=2\<close> alone survives, with or without sorting.
\<close>

theorem normalizeUrl_drops_duplicate_keys:
  "distinct (map fst (rebuildParams strip entries []))
   \<and> map_option searchParamsEntries (parseUrl ''https://example.com/p?a=1&a=2'')
     = Some [(''a'', ''1''), (''a'', ''2'')]
   \<and> normalizeUrl codeUnitCompare ''https://example.com/p?a=1&a=2'' noOptions = ''example.com/p?a=2''
   \<and> normalizeUrl codeUnitCompare ''https://example.com/p?a=1&a=2''
        (noOptions\<lparr>sortParams := Some False\<rparr>) = ''example.com/p?a=2''"
proof (intro conjI)
  show "distinct (map fst (rebuildParams strip entries []))"
    by (rule distinct_rebuildParams) simp
  show "map_option searchParamsEntries (parseUrl ''https://example.com/p?a=1&a=2'')
     = Some [(''a'', ''1''), (''a'', ''2'')]" by code_simp
  show "normalizeUrl codeUnitCompare ''https://example.com/p?a=1&a=2'' noOptions = ''example.com/p?a=2''"
    by code_simp
  show "normalizeUrl codeUnitCompare ''https://example.com/p?a=1&a=2''
        (noOptions\<lparr>sortParams := Some False\<rparr>) = ''example.com/p?a=2''" by code_simp
qed

lemma processSearchParams_pathname: "pathname (processSearchParams lc options p) = pathname p"
  by (simp add: processSearchParams_def setSearch_def Let_def)

lemma normalizeUrl_parts:
  assumes "parseUrl u = Some p" and "protocol p \<in> set [''http:'', ''https:'']"
  shows "normalizeUrl lc u options =
     (if opt stripTrailingSlash options \<and> normalizedPrefix options p @ pathname p \<noteq> []
          \<and> last (normalizedPrefix options p @ pathname p) = CHR ''/''
          \<and> length (normalizedPrefix options p @ pathname p) > 1
      then butlast (normalizedPrefix options p @ pathname p)
      else normalizedPrefix options p @ pathname p)
     @ normalizedRest lc options p"
  using assms
  by (simp add: normalizeUrl_def normalizeUrlWith_def normalizedPrefix_def normalizedRest_def
      Let_def processSearchParams_pathname)

text \<open>
  Claim C7, as the code has it. With \<open>stripTrailingSlash\<close> enabled, \<open>normalizeUrl\<close> removes
  exactly one trailing \<open>/\<close> from the string made of the kept scheme, the host and the path,
  whenever that string is longer than the one character: a path \<open>q/\<close> becomes \<open>q\<close>, and
  the root path \<open>/\<close> is removed as well, so that the host is followed directly by the
  query, if any. The slash stays only when nothing precedes the root path (the host was
  \<open>www.\<close> and was stripped, and the scheme is stripped). A path that does not end
  in \<open>/\<close> is kept.
\<close>

theorem normalizeUrl_trailing_slash:
  assumes "parseUrl u = Some p" and "protocol p \<in> set [''http:'', ''https:'']"
    and "opt stripTrailingSlash options"
  shows "(pathname p = q @ ''/'' \<and> normalizedPrefix options p @ q \<noteq> [] \<longrightarrow>
            normalizeUrl lc u options = normalizedPrefix options p @ q @ normalizedRest lc options p)
       \<and> (pathname p = ''/'' \<and> normalizedPrefix options p = [] \<longrightarrow>
            normalizeUrl lc u options = ''/'' @ normalizedRest lc options p)
       \<and> (pathname p \<noteq> [] \<and> last (pathname p) \<noteq> CHR ''/'' \<longrightarrow>
            normalizeUrl lc u options
              = normalizedPrefix options p @ pathname p @ normalizedRest lc options p)"
proof (intro conjI impI)
  assume "pathname p = q @ ''/'' \<and> normalizedPrefix options p @ q \<noteq> []"
  then have path: "pathname p = q @ ''/''" and ne: "normalizedPrefix options p @ q \<noteq> []"
    by simp_all
  have "butlast (normalizedPrefix options p @ q @ ''/'') = normalizedPrefix options p @ q"
    by (simp add: butlast_append)
  moreover have "1 < length (normalizedPrefix options p @ q @ ''/'')"
    using ne by (cases "normalizedPrefix options p @ q") auto
  ultimately show "normalizeUrl lc u options
      = normalizedPrefix options p @ q @ normalizedRest lc options p"
    using assms path by (simp add: normalizeUrl_parts)
next
  assume "pathname p = ''/'' \<and> normalizedPrefix options p = []"
  then show "normalizeUrl lc u options = ''/'' @ normalizedRest lc options p"
    using assms by (simp add: normalizeUrl_parts)
next
  assume "pathname p \<noteq> [] \<and> last (pathname p) \<noteq> CHR ''/''"
  then show "normalizeUrl lc u options
      = normalizedPrefix options p @ pathname p @ normalizedRest lc options p"
    using assms by (simp add: normalizeUrl_parts)
qed

text \<open>
  Against claim C7 as it is written: the path of \<open>https://example.com/\<close> is exactly \<open>/\<close>,
  and the normalized output does not end with it.
\<close>

theorem normalizeUrl_root_slash_counterexample:
  "map_option pathname (parseUrl ''https://example.com/'') = Some ''/''
   \<and> isValidHttpUrl ''https://example.com/''
   \<and> opt stripTrailingSlash noOptions
   \<and> normalizeUrl codeUnitCompare ''https://example.com/'' noOptions = ''example.com''"
  by code_simp

theorem normalizeUrl_trailing_slash_witness:
  "parseUrl ''https://example.com/''
     = Some \<lparr>protocol = ''https:'', hostname = ''example.com'', pathname = ''/'', search = [], hash = []\<rparr>
   \<and> opt stripTrailingSlash noOptions
   \<and> normalizeUrl codeUnitCompare ''https://example.com/'' noOptions = ''example.com''
   \<and> parseUrl ''http://www./?x=1''
     = Some \<lparr>protocol = ''http:'', hostname = ''www.'', pathname = ''/'', search = ''?x=1'', hash = []\<rparr>
   \<and> normalizeUrl codeUnitCompare ''http://www./?x=1'' noOptions = ''/?x=1''"
proof -
  let ?p = "\<lparr>protocol = ''https:'', hostname = ''example.com'', pathname = ''/'', search = [], hash = []\<rparr>"
  let ?p2 = "\<lparr>protocol = ''http:'', hostname = ''www.'', pathname = ''/'', search = ''?x=1'', hash = []\<rparr>"
  have u: "parseUrl ''https://example.com/'' = Some ?p" by code_simp
  have u2: "parseUrl ''http://www./?x=1'' = Some ?p2" by code_simp
  have web: "protocol ?p \<in> set [''http:'', ''https:'']" by simp
  have web2: "protocol ?p2 \<in> set [''http:'', ''https:'']" by simp
  have on: "opt stripTrailingSlash noOptions" by simp
  have pre: "normalizedPrefix noOptions ?p = ''example.com''" by code_simp
  have rest: "normalizedRest codeUnitCompare noOptions ?p = []" by code_simp
  have pre2: "normalizedPrefix noOptions ?p2 = []" by code_simp
  have rest2: "normalizedRest codeUnitCompare noOptions ?p2 = ''?x=1''" by code_simp
  have root: "pathname ?p = [] @ ''/'' \<and> normalizedPrefix noOptions ?p @ [] \<noteq> []"
    unfolding pre by simp
  have "normalizeUrl codeUnitCompare ''https://example.com/'' noOptions
          = normalizedPrefix noOptions ?p @ [] @ normalizedRest codeUnitCompare noOptions ?p"
    using conjunct1 [OF normalizeUrl_trailing_slash [OF u web on, of "[]" codeUnitCompare]] root
    by (rule mp)
  then have n: "normalizeUrl codeUnitCompare ''https://example.com/'' noOptions = ''example.com''"
    unfolding pre rest by simp
  have bare: "pathname ?p2 = ''/'' \<and> normalizedPrefix noOptions ?p2 = []"
    unfolding pre2 by simp
  have "normalizeUrl codeUnitCompare ''http://www./?x=1'' noOptions
          = ''/'' @ normalizedRest codeUnitCompare noOptions ?p2"
    using conjunct1 [OF conjunct2 [OF normalizeUrl_trailing_slash [OF u2 web2 on, of "[]" codeUnitCompare]]]
      bare by (rule mp)
  then have n2: "normalizeUrl codeUnitCompare ''http://www./?x=1'' noOptions = ''/?x=1''"
    unfolding rest2 by simp
  show ?thesis using u on n u2 n2 by (intro conjI)
qed

end
